theory Spec2Isabelle
  imports Complex_Main "HOL-Library.AList" "HOL-Library.Sublist" "HOL-Library.Log_Nat"
begin

section \<open>Cache store (js/cache.js)\<close>

text \<open>
  Payloads are JavaScript values. Only the distinctions the cache code itself makes are
  kept: \<open>null\<close> and \<open>undefined\<close>, the falsy scalars, and objects (arrays included),
  which are always truthy and are identified by a number. Every value of this type
  survives \<open>JSON.stringify\<close> followed by \<open>JSON.parse\<close> unchanged.
\<close>

datatype jsvalue = JNull | JUndefined | JBool bool | JNum int | JStr string | JObj nat

fun truthy :: "jsvalue \<Rightarrow> bool" where
  "truthy JNull = False"
| "truthy JUndefined = False"
| "truthy (JBool b) = b"
| "truthy (JNum n) = (n \<noteq> 0)"
| "truthy (JStr s) = (s \<noteq> [])"
| "truthy (JObj _) = True"

text \<open>\<open>appConfig.cacheExpiry\<close> of js/config.js, in milliseconds.\<close>

definition cacheExpiry :: int where
  "cacheExpiry = 5 * 60 * 1000"

text \<open>
  A JavaScript \<open>Map\<close> iterates in insertion order, \<open>Map.set\<close> on a present key keeps
  the key's position and \<open>Map.delete\<close> removes it: an association list with
  \<open>AList.update\<close> and \<open>AList.delete\<close>. \<open>localStorage\<close> holds, under the key
  \<open>cache_\<close> followed by the cache key, the blob \<open>{data, timestamp}\<close> that
  \<open>saveToStorage\<close> wrote; \<open>storageWritable\<close> is false when \<open>setItem\<close> throws
  (quota exceeded). Times are \<open>Date.now()\<close> in milliseconds; the two readings of the
  clock inside one synchronous \<open>set\<close> (its own and the one of \<open>cleanup\<close>) are the
  same value \<open>now\<close>.
\<close>

record CacheManager =
  cache :: "(string \<times> jsvalue) list"
  cacheTimestamps :: "(string \<times> int) list"
  maxCacheSize :: nat
  localStorage :: "(string \<times> (jsvalue \<times> int)) list"
  storageWritable :: bool

definition new_CacheManager :: "(string \<times> (jsvalue \<times> int)) list \<Rightarrow> bool \<Rightarrow> CacheManager" where
  "new_CacheManager store writable =
     \<lparr>cache = [], cacheTimestamps = [], maxCacheSize = 50,
      localStorage = store, storageWritable = writable\<rparr>"

definition storageKey :: "string \<Rightarrow> string" where
  "storageKey key = ''cache_'' @ key"

definition delete :: "CacheManager \<Rightarrow> string \<Rightarrow> CacheManager" where
  "delete s key =
     s\<lparr>cache := AList.delete key (cache s),
       cacheTimestamps := AList.delete key (cacheTimestamps s),
       localStorage := AList.delete (storageKey key) (localStorage s)\<rparr>"

definition expired :: "int \<Rightarrow> int \<Rightarrow> bool" where
  "expired now timestamp = (now - timestamp > cacheExpiry)"

definition cleanup :: "CacheManager \<Rightarrow> int \<Rightarrow> CacheManager" where
  "cleanup s now =
     (let expiredKeys = map fst (filter (\<lambda>(key, timestamp). expired now timestamp) (cacheTimestamps s));
          s1 = foldl delete s expiredKeys
      in if length (cache s1) > maxCacheSize s1
         then let sortedEntries = sort_key snd (cacheTimestamps s1);
                  toRemove = take (length (cache s1) - maxCacheSize s1) sortedEntries
              in foldl delete s1 (map fst toRemove)
         else s1)"

definition saveToStorage :: "CacheManager \<Rightarrow> string \<Rightarrow> jsvalue \<Rightarrow> int \<Rightarrow> CacheManager" where
  "saveToStorage s key data timestamp =
     (if storageWritable s
      then s\<lparr>localStorage := AList.update (storageKey key) (data, timestamp) (localStorage s)\<rparr>
      else s)"

text \<open>The parameter \<open>expiry\<close> is accepted and never read, as in the source.\<close>

definition set_cache :: "CacheManager \<Rightarrow> string \<Rightarrow> jsvalue \<Rightarrow> int \<Rightarrow> int \<Rightarrow> CacheManager" where
  "set_cache s key data expiry now =
     (let s1 = s\<lparr>cache := AList.update key data (cache s),
                  cacheTimestamps := AList.update key now (cacheTimestamps s)\<rparr>;
          s2 = (if length (cache s1) > maxCacheSize s1 then cleanup s1 now else s1)
      in saveToStorage s2 key data now)"

definition loadFromStorage :: "CacheManager \<Rightarrow> string \<Rightarrow> int \<Rightarrow> jsvalue \<times> CacheManager" where
  "loadFromStorage s key now =
     (case map_of (localStorage s) (storageKey key) of
        None \<Rightarrow> (JNull, s)
      | Some (data, timestamp) \<Rightarrow>
          if expired now timestamp
          then (JNull, s\<lparr>localStorage := AList.delete (storageKey key) (localStorage s)\<rparr>)
          else (data, s\<lparr>cache := AList.update key data (cache s),
                         cacheTimestamps := AList.update key timestamp (cacheTimestamps s)\<rparr>))"

text \<open>
  \<open>!timestamp\<close> holds for a missing key and for the timestamp \<open>0\<close>;
  \<open>Map.get\<close> of a missing key is \<open>undefined\<close>.
\<close>

definition mapGet :: "(string \<times> jsvalue) list \<Rightarrow> string \<Rightarrow> jsvalue" where
  "mapGet m key = (case map_of m key of None \<Rightarrow> JUndefined | Some v \<Rightarrow> v)"

definition get :: "CacheManager \<Rightarrow> string \<Rightarrow> int \<Rightarrow> jsvalue \<times> CacheManager" where
  "get s key now =
     (case map_of (cacheTimestamps s) key of
        None \<Rightarrow> loadFromStorage s key now
      | Some timestamp \<Rightarrow>
          if timestamp = 0 then loadFromStorage s key now
          else if expired now timestamp then (JNull, delete s key)
          else (mapGet (cache s) key, s))"

text \<open>
  \<open>cacheUtils.getOrFetch\<close>. The loader is an effectful closure: it acts on the state
  \<open>'w\<close> of the remote side and either fails with a message or yields the data. The
  cache is read at \<open>now\<close>; the loader's result is stored at \<open>now'\<close>, when the awaited
  promise has settled.
\<close>

definition getOrFetch ::
  "CacheManager \<Rightarrow> string \<Rightarrow> ('w \<Rightarrow> (string + jsvalue) \<times> 'w) \<Rightarrow> int \<Rightarrow> int \<Rightarrow> int \<Rightarrow> 'w
     \<Rightarrow> (string + jsvalue) \<times> CacheManager \<times> 'w" where
  "getOrFetch s key fetchFunction expiry now now' w =
     (case get s key now of
        (cached, s1) \<Rightarrow>
          if truthy cached then (Inr cached, s1, w)
          else (case fetchFunction w of
                  (Inl err, w') \<Rightarrow> (Inl err, s1, w')
                | (Inr data, w') \<Rightarrow> (Inr data, set_cache s1 key data expiry now', w')))"

text \<open>A run of \<open>set\<close> calls, each with its key, payload, ttl argument and clock reading.\<close>

fun set_calls :: "CacheManager \<Rightarrow> (string \<times> jsvalue \<times> int \<times> int) list \<Rightarrow> CacheManager" where
  "set_calls s [] = s"
| "set_calls s ((key, data, expiry, now) # rest) = set_calls (set_cache s key data expiry now) rest"

text \<open>
  The two maps of a manager hold the same keys in the same order (every method writes and
  deletes them together), each key once.
\<close>

definition keys_aligned :: "CacheManager \<Rightarrow> bool" where
  "keys_aligned s = (map fst (cache s) = map fst (cacheTimestamps s) \<and> distinct (map fst (cache s)))"

text \<open>The entries \<open>cleanup\<close> does not count as expired, and the keys it collects first.\<close>

definition live_entries :: "CacheManager \<Rightarrow> int \<Rightarrow> (string \<times> int) list" where
  "live_entries s now = filter (\<lambda>(key, timestamp). \<not> expired now timestamp) (cacheTimestamps s)"

definition expiredKeys_of :: "CacheManager \<Rightarrow> int \<Rightarrow> string list" where
  "expiredKeys_of s now = map fst (filter (\<lambda>(key, timestamp). expired now timestamp) (cacheTimestamps s))"

text \<open>A manager whose cap is two entries, for the scenario of three \<open>set\<close> calls.\<close>

definition cache_of_two :: CacheManager where
  "cache_of_two = (new_CacheManager [] True)\<lparr>maxCacheSize := 2\<rparr>"


section \<open>Viewport renderer (js/VirtualScrollingManager.js)\<close>

subsection \<open>Numbers\<close>

text \<open>
  A JavaScript Number is an IEEE 754 double: a finite value, which is a rational, or
  \<open>Infinity\<close>, \<open>-Infinity\<close> or \<open>NaN\<close>. The two zeros are not told apart, and a zero
  divisor counts as \<open>+0\<close>. An arithmetic operation on
  finite values yields the exact result rounded to the nearest double, ties to the even
  significand: \<open>ilog2 x\<close> is the binary exponent of \<open>x > 0\<close>, \<open>quantum x\<close> the distance
  between neighbouring doubles around \<open>x\<close> (53 significant bits, exponent not below
  \<open>-1022\<close>), \<open>rne\<close> rounds to the nearest integer, ties to even, and \<open>fl\<close> overflows
  to an infinity from \<open>2 ^ 1024\<close> on.
\<close>

datatype jsnum = Fin rat | PInf | NInf | NaN

definition ilog2 :: "rat \<Rightarrow> int" where
  "ilog2 x = (if 1 \<le> x then int (floorlog 2 (nat \<lfloor>x\<rfloor>)) - 1
              else - int (floorlog 2 (nat (\<lceil>1 / x\<rceil> - 1))))"

definition quantum :: "rat \<Rightarrow> rat" where
  "quantum x = 2 powi (max (ilog2 \<bar>x\<bar>) (- 1022) - 52)"

definition rne :: "rat \<Rightarrow> int" where
  "rne y = (let f = \<lfloor>y\<rfloor>; d = y - of_int f
            in if d < 1 / 2 then f else if 1 / 2 < d then f + 1 else if even f then f else f + 1)"

definition nearest :: "rat \<Rightarrow> rat" where
  "nearest x = (if x = 0 then 0 else of_int (rne (x / quantum x)) * quantum x)"

definition fl :: "rat \<Rightarrow> jsnum" where
  "fl x = (let r = nearest x
           in if 2 ^ 1024 \<le> r then PInf else if r \<le> - (2 ^ 1024) then NInf else Fin r)"

text \<open>
  The Numbers the renderer is given (item height, scroll offset, container height, buffer
  size) are finite. A field that holds one is a rational \<open>x\<close> and stands for \<open>num x\<close>,
  the finite double nearest to \<open>x\<close>, as a numeric literal does; \<open>maxDouble\<close> is
  \<open>Number.MAX_VALUE\<close>.
\<close>

definition maxDouble :: rat where
  "maxDouble = 2 ^ 1024 - 2 ^ 971"

definition num :: "rat \<Rightarrow> jsnum" where
  "num x = Fin (max (- maxDouble) (min maxDouble (nearest x)))"

fun jsneg :: "jsnum \<Rightarrow> jsnum" where
  "jsneg (Fin x) = Fin (- x)"
| "jsneg PInf = NInf"
| "jsneg NInf = PInf"
| "jsneg NaN = NaN"

fun jsadd :: "jsnum \<Rightarrow> jsnum \<Rightarrow> jsnum" where
  "jsadd (Fin x) (Fin y) = fl (x + y)"
| "jsadd NaN b = NaN"
| "jsadd a NaN = NaN"
| "jsadd PInf NInf = NaN"
| "jsadd NInf PInf = NaN"
| "jsadd PInf b = PInf"
| "jsadd a PInf = PInf"
| "jsadd NInf b = NInf"
| "jsadd a NInf = NInf"

definition jssub :: "jsnum \<Rightarrow> jsnum \<Rightarrow> jsnum" where
  "jssub a b = jsadd a (jsneg b)"

fun jsmul :: "jsnum \<Rightarrow> jsnum \<Rightarrow> jsnum" where
  "jsmul (Fin x) (Fin y) = fl (x * y)"
| "jsmul NaN b = NaN"
| "jsmul a NaN = NaN"
| "jsmul (Fin x) PInf = (if x = 0 then NaN else if 0 < x then PInf else NInf)"
| "jsmul (Fin x) NInf = (if x = 0 then NaN else if 0 < x then NInf else PInf)"
| "jsmul PInf (Fin y) = (if y = 0 then NaN else if 0 < y then PInf else NInf)"
| "jsmul NInf (Fin y) = (if y = 0 then NaN else if 0 < y then NInf else PInf)"
| "jsmul PInf PInf = PInf"
| "jsmul NInf NInf = PInf"
| "jsmul PInf NInf = NInf"
| "jsmul NInf PInf = NInf"

fun jsdiv :: "jsnum \<Rightarrow> jsnum \<Rightarrow> jsnum" where
  "jsdiv (Fin x) (Fin y) =
     (if y = 0 then (if x = 0 then NaN else if 0 < x then PInf else NInf) else fl (x / y))"
| "jsdiv NaN b = NaN"
| "jsdiv a NaN = NaN"
| "jsdiv (Fin x) PInf = Fin 0"
| "jsdiv (Fin x) NInf = Fin 0"
| "jsdiv PInf (Fin y) = (if 0 \<le> y then PInf else NInf)"
| "jsdiv NInf (Fin y) = (if 0 \<le> y then NInf else PInf)"
| "jsdiv PInf b = NaN"
| "jsdiv NInf b = NaN"

fun jsfloor :: "jsnum \<Rightarrow> jsnum" where
  "jsfloor (Fin x) = Fin (of_int \<lfloor>x\<rfloor>)"
| "jsfloor a = a"

fun jsceil :: "jsnum \<Rightarrow> jsnum" where
  "jsceil (Fin x) = Fin (of_int \<lceil>x\<rceil>)"
| "jsceil a = a"

fun jsabs :: "jsnum \<Rightarrow> jsnum" where
  "jsabs (Fin x) = Fin \<bar>x\<bar>"
| "jsabs NInf = PInf"
| "jsabs a = a"

text \<open>The comparisons \<open><\<close> and \<open><=\<close>: false when an operand is \<open>NaN\<close>.\<close>

fun jslt :: "jsnum \<Rightarrow> jsnum \<Rightarrow> bool" where
  "jslt (Fin x) (Fin y) = (x < y)"
| "jslt NaN b = False"
| "jslt a NaN = False"
| "jslt PInf b = False"
| "jslt a PInf = True"
| "jslt a NInf = False"
| "jslt NInf b = True"

fun jsle :: "jsnum \<Rightarrow> jsnum \<Rightarrow> bool" where
  "jsle (Fin x) (Fin y) = (x \<le> y)"
| "jsle NaN b = False"
| "jsle a NaN = False"
| "jsle a PInf = True"
| "jsle PInf b = False"
| "jsle NInf b = True"
| "jsle a NInf = False"

text \<open>\<open>Math.max\<close> and \<open>Math.min\<close> of two Numbers: \<open>NaN\<close> when an operand is.\<close>

fun jsmax :: "jsnum \<Rightarrow> jsnum \<Rightarrow> jsnum" where
  "jsmax NaN b = NaN"
| "jsmax a NaN = NaN"
| "jsmax a b = (if jslt a b then b else a)"

fun jsmin :: "jsnum \<Rightarrow> jsnum \<Rightarrow> jsnum" where
  "jsmin NaN b = NaN"
| "jsmin a NaN = NaN"
| "jsmin a b = (if jslt b a then b else a)"

subsection \<open>The renderer\<close>

text \<open>
  The buffer size is a count, an integer. The list items are objects of a type \<open>'a\<close>, all
  truthy; the length of an array is below \<open>2 ^ 32\<close>, so \<open>data.length\<close> and
  \<open>data.length - 1\<close> are exact. Beside the fields of the class the record holds what the
  manager writes to the page: the height of the spacer element \<open>virtualContent\<close>, the
  children of \<open>visibleContainer\<close> (each with its \<open>data-index\<close>) and the offset of its
  \<open>translateY\<close> transform. What the page supplies (\<open>container.scrollTop\<close>,
  \<open>container.clientHeight\<close>) is an argument of the method that reads it. The field
  \<open>renderFunction\<close> only fills the item elements and is left out.
\<close>

record 'a VirtualScrollingManager =
  itemHeight :: rat
  bufferSize :: int
  data :: "'a list"
  scrollTop :: rat
  containerHeight :: rat
  totalHeight :: jsnum
  startIndex :: jsnum
  endIndex :: jsnum
  spacerHeight :: jsnum
  rendered :: "(nat \<times> 'a) list"
  translateY :: jsnum

text \<open>The state the constructor leaves, \<open>updateContainerHeight\<close> of \<open>initialize\<close> included.\<close>

definition new_VirtualScrollingManager :: "rat \<Rightarrow> int \<Rightarrow> rat \<Rightarrow> 'a VirtualScrollingManager" where
  "new_VirtualScrollingManager h b clientHeight =
     \<lparr>itemHeight = h, bufferSize = b, data = [], scrollTop = 0, containerHeight = clientHeight,
      totalHeight = Fin 0, startIndex = Fin 0, endIndex = Fin 0, spacerHeight = Fin 0, rendered = [],
      translateY = Fin 0\<rparr>"

definition updateContainerHeight :: "'a VirtualScrollingManager \<Rightarrow> rat \<Rightarrow> 'a VirtualScrollingManager" where
  "updateContainerHeight s clientHeight = s\<lparr>containerHeight := clientHeight\<rparr>"

definition calculateVisibleRange :: "'a VirtualScrollingManager \<Rightarrow> 'a VirtualScrollingManager" where
  "calculateVisibleRange s =
     s\<lparr>startIndex :=
         jsmax (Fin 0)
           (jssub (jsfloor (jsdiv (num (scrollTop s)) (num (itemHeight s))))
                  (num (of_int (bufferSize s)))),
       endIndex :=
         jsmin (Fin (of_nat (length (data s)) - 1))
           (jsadd (jsceil (jsdiv (jsadd (num (scrollTop s)) (num (containerHeight s)))
                                 (num (itemHeight s))))
                  (num (of_int (bufferSize s))))\<rparr>"

text \<open>
  The loop of \<open>updateVisibleItems\<close> runs \<open>i\<close> from \<open>startIndex\<close> in steps of one while
  \<open>i <= endIndex\<close> and creates an item where \<open>this.data[i]\<close> is truthy, that is, where
  \<open>i\<close> is an index of the list. It runs only between finite bounds, and meets an index
  only from a whole-numbered start.
\<close>

definition loopIndices :: "jsnum \<Rightarrow> jsnum \<Rightarrow> nat \<Rightarrow> nat list" where
  "loopIndices a b n =
     (case (a, b) of
        (Fin x, Fin y) \<Rightarrow>
          filter (\<lambda>i. of_int \<lfloor>x\<rfloor> = x \<and> x \<le> of_nat i \<and> of_nat i \<le> y) [0..<n]
      | _ \<Rightarrow> [])"

definition updateVisibleItems :: "'a VirtualScrollingManager \<Rightarrow> 'a VirtualScrollingManager" where
  "updateVisibleItems s =
     (let s1 = calculateVisibleRange s
      in s1\<lparr>rendered := map (\<lambda>i. (i, data s1 ! i))
                            (loopIndices (startIndex s1) (endIndex s1) (length (data s1))),
             translateY := jsmul (startIndex s1) (num (itemHeight s1))\<rparr>)"

definition setData :: "'a VirtualScrollingManager \<Rightarrow> 'a list \<Rightarrow> 'a VirtualScrollingManager" where
  "setData s d =
     updateVisibleItems
       (s\<lparr>data := d,
          totalHeight := jsmul (Fin (of_nat (length d))) (num (itemHeight s)),
          spacerHeight := jsmul (Fin (of_nat (length d))) (num (itemHeight s))\<rparr>)"

definition handleScroll :: "'a VirtualScrollingManager \<Rightarrow> rat \<Rightarrow> 'a VirtualScrollingManager" where
  "handleScroll s newScrollTop =
     (if jslt (jsdiv (num (itemHeight s)) (Fin 2))
              (jsabs (jssub (num newScrollTop) (num (scrollTop s))))
      then updateVisibleItems (s\<lparr>scrollTop := newScrollTop\<rparr>)
      else s)"

text \<open>The listener of the window's \<open>resize\<close> event.\<close>

definition handleResize :: "'a VirtualScrollingManager \<Rightarrow> rat \<Rightarrow> 'a VirtualScrollingManager" where
  "handleResize s clientHeight = updateVisibleItems (updateContainerHeight s clientHeight)"

text \<open>
  \<open>Array.prototype.splice(index, 0, item)\<close>: a negative start counts from the end and
  is clamped to 0, a start beyond the end is clamped to the length.
\<close>

definition spliceStart :: "nat \<Rightarrow> int \<Rightarrow> nat" where
  "spliceStart n index = (if index < 0 then nat (max (int n + index) 0) else min (nat index) n)"

definition addItem :: "'a VirtualScrollingManager \<Rightarrow> 'a \<Rightarrow> int \<Rightarrow> 'a VirtualScrollingManager" where
  "addItem s item index =
     (let d = (if index = - 1 then data s @ [item]
               else take (spliceStart (length (data s)) index) (data s) @ [item]
                    @ drop (spliceStart (length (data s)) index) (data s))
      in updateVisibleItems
           (s\<lparr>data := d,
              totalHeight := jsmul (Fin (of_nat (length d))) (num (itemHeight s)),
              spacerHeight := jsmul (Fin (of_nat (length d))) (num (itemHeight s))\<rparr>))"

definition removeItem :: "'a VirtualScrollingManager \<Rightarrow> int \<Rightarrow> 'a VirtualScrollingManager" where
  "removeItem s index =
     (if index \<ge> 0 \<and> index < int (length (data s))
      then let d = take (nat index) (data s) @ drop (nat index + 1) (data s)
           in updateVisibleItems
                (s\<lparr>data := d,
                   totalHeight := jsmul (Fin (of_nat (length d))) (num (itemHeight s)),
                   spacerHeight := jsmul (Fin (of_nat (length d))) (num (itemHeight s))\<rparr>)
      else s)"

text \<open>
  \<open>updateItem\<close> replaces the item by its merge with the patch (\<open>patch\<close> maps the old item
  to \<open>{...old, ...newData}\<close>) and re-renders it in place if it is among the children.
\<close>

definition updateItem :: "'a VirtualScrollingManager \<Rightarrow> int \<Rightarrow> ('a \<Rightarrow> 'a) \<Rightarrow> 'a VirtualScrollingManager" where
  "updateItem s index patch =
     (if index \<ge> 0 \<and> index < int (length (data s))
      then let d = (data s)[nat index := patch (data s ! nat index)]
           in s\<lparr>data := d,
                rendered := map (\<lambda>(i, x). if i = nat index then (i, d ! i) else (i, x)) (rendered s)\<rparr>
      else s)"

definition clear :: "'a VirtualScrollingManager \<Rightarrow> 'a VirtualScrollingManager" where
  "clear s = s\<lparr>data := [], totalHeight := Fin 0, spacerHeight := Fin 0, rendered := []\<rparr>"

definition setItemHeight :: "'a VirtualScrollingManager \<Rightarrow> rat \<Rightarrow> 'a VirtualScrollingManager" where
  "setItemHeight s newHeight =
     updateVisibleItems
       (s\<lparr>itemHeight := newHeight,
          totalHeight := jsmul (Fin (of_nat (length (data s)))) (num newHeight),
          spacerHeight := jsmul (Fin (of_nat (length (data s)))) (num newHeight)\<rparr>)"

text \<open>The operations of a renderer, and a run of them from the constructed state.\<close>

datatype 'a renderer_op =
    SetData "'a list"
  | Scroll rat
  | Resize rat
  | AddItem 'a int
  | RemoveItem int
  | UpdateItem int "'a \<Rightarrow> 'a"
  | Clear
  | SetItemHeight rat

fun apply_op :: "'a VirtualScrollingManager \<Rightarrow> 'a renderer_op \<Rightarrow> 'a VirtualScrollingManager" where
  "apply_op s (SetData d) = setData s d"
| "apply_op s (Scroll newScrollTop) = handleScroll s newScrollTop"
| "apply_op s (Resize clientHeight) = handleResize s clientHeight"
| "apply_op s (AddItem item index) = addItem s item index"
| "apply_op s (RemoveItem index) = removeItem s index"
| "apply_op s (UpdateItem index patch) = updateItem s index patch"
| "apply_op s Clear = clear s"
| "apply_op s (SetItemHeight newHeight) = setItemHeight s newHeight"

definition run_ops :: "'a VirtualScrollingManager \<Rightarrow> 'a renderer_op list \<Rightarrow> 'a VirtualScrollingManager" where
  "run_ops s ops = foldl apply_op s ops"

definition height_invariant :: "'a VirtualScrollingManager \<Rightarrow> bool" where
  "height_invariant s = (totalHeight s = jsmul (Fin (of_nat (length (data s)))) (num (itemHeight s)))"

text \<open>
  The unclamped ends of the window, as \<open>calculateVisibleRange\<close> computes them before
  \<open>Math.max\<close> and \<open>Math.min\<close>, and the test of \<open>handleScroll\<close>.
\<close>

definition windowLow :: "'a VirtualScrollingManager \<Rightarrow> jsnum" where
  "windowLow s =
     jssub (jsfloor (jsdiv (num (scrollTop s)) (num (itemHeight s)))) (num (of_int (bufferSize s)))"

definition windowHigh :: "'a VirtualScrollingManager \<Rightarrow> jsnum" where
  "windowHigh s =
     jsadd (jsceil (jsdiv (jsadd (num (scrollTop s)) (num (containerHeight s))) (num (itemHeight s))))
           (num (of_int (bufferSize s)))"

definition scrolledFar :: "'a VirtualScrollingManager \<Rightarrow> rat \<Rightarrow> bool" where
  "scrolledFar s newScrollTop =
     jslt (jsdiv (num (itemHeight s)) (Fin 2)) (jsabs (jssub (num newScrollTop) (num (scrollTop s))))"

text \<open>
  The renderer of the example scenario (item height 60, buffer 5, container height 600)
  with 1000 records; the same renderer scrolled to offset 30000 and then given a list of
  10 records; a renderer with rows of height 48.6 and no buffer; and one with five rows of
  height 33.3, no buffer and a container of height 100, scrolled to offset
  166.49999999999997.
\<close>

definition thousand_records :: "nat VirtualScrollingManager" where
  "thousand_records = setData (new_VirtualScrollingManager 60 5 600) [0..<1000]"

definition shrunk_after_scroll :: "nat VirtualScrollingManager" where
  "shrunk_after_scroll = setData (handleScroll thousand_records 30000) [0..<10]"

definition tall_rows :: "nat VirtualScrollingManager" where
  "tall_rows = setData (new_VirtualScrollingManager (486 / 10) 0 600) [0..<1000]"

definition five_rows :: "nat VirtualScrollingManager" where
  "five_rows =
     handleScroll (setData (new_VirtualScrollingManager (333 / 10) 0 100) [0..<5])
       (16649999999999997 / 100000000000000)"

subsection \<open>Event listeners\<close>

text \<open>
  A listener is a function object. Each evaluation of an arrow function expression creates
  a new object (\<open>Closure\<close> with a fresh number); \<open>this.handleScroll\<close> and
  \<open>this.updateContainerHeight\<close> denote the methods of the prototype. A page holds the
  listeners of the container's \<open>scroll\<close> event and of the window's \<open>resize\<close> event, in
  order of registration. \<open>addEventListener\<close> ignores a listener that is registered
  already; \<open>removeEventListener\<close> removes the listener that is the same object.
\<close>

datatype listener = Closure nat | HandleScrollMethod | UpdateContainerHeightMethod

record page =
  containerFound :: bool
  clientHeight :: rat
  scrollListeners :: "listener list"
  resizeListeners :: "listener list"
  closures :: nat
  virtualContents :: nat

definition addEventListener :: "listener list \<Rightarrow> listener \<Rightarrow> listener list" where
  "addEventListener ls f = (if f \<in> set ls then ls else ls @ [f])"

definition removeEventListener :: "listener list \<Rightarrow> listener \<Rightarrow> listener list" where
  "removeEventListener ls f = removeAll f ls"

definition setupContainer :: "page \<Rightarrow> page" where
  "setupContainer p = p\<lparr>virtualContents := virtualContents p + 1\<rparr>"

definition setupEventListeners :: "page \<Rightarrow> page" where
  "setupEventListeners p =
     p\<lparr>scrollListeners := addEventListener (scrollListeners p) (Closure (closures p)),
       resizeListeners := addEventListener (resizeListeners p) (Closure (closures p + 1)),
       closures := closures p + 2\<rparr>"

text \<open>The constructor throws when the selector finds no container.\<close>

definition construct :: "page \<Rightarrow> rat \<Rightarrow> int \<Rightarrow> string + ('a VirtualScrollingManager \<times> page)" where
  "construct p h b =
     (if \<not> containerFound p then Inl ''Container not found''
      else Inr (new_VirtualScrollingManager h b (clientHeight p),
                setupEventListeners (setupContainer p)))"

definition destroy :: "'a VirtualScrollingManager \<Rightarrow> page \<Rightarrow> page" where
  "destroy s p =
     p\<lparr>scrollListeners := removeEventListener (scrollListeners p) HandleScrollMethod,
       resizeListeners := removeEventListener (resizeListeners p) UpdateContainerHeightMethod,
       virtualContents := virtualContents p - 1\<rparr>"

definition create_destroy :: "page \<Rightarrow> page" where
  "create_destroy p =
     (case (construct p 60 5 :: string + (nat VirtualScrollingManager \<times> page)) of
        Inl err \<Rightarrow> p
      | Inr (s, p') \<Rightarrow> destroy s p')"

definition fresh_page :: page where
  "fresh_page = \<lparr>containerFound = True, clientHeight = 600, scrollListeners = [],
                 resizeListeners = [], closures = 0, virtualContents = 0\<rparr>"


section \<open>Voucher search (VoucherManager)\<close>

subsection \<open>Strings\<close>

text \<open>
  A JavaScript string is a sequence of UTF-16 code units, here natural numbers below
  65536. \<open>trim\<close> removes from both ends the code units of white space and of line
  terminators: TAB, LF, VT, FF, CR, SPACE, NO-BREAK SPACE, OGHAM SPACE MARK, EN QUAD to
  HAIR SPACE, LINE SEPARATOR, PARAGRAPH SEPARATOR, NARROW NO-BREAK SPACE, MEDIUM
  MATHEMATICAL SPACE, IDEOGRAPHIC SPACE and the byte order mark. \<open>includesText\<close> is the
  test of \<open>String.prototype.includes\<close>: the argument occurs as a contiguous run of code
  units. \<open>String.prototype.toLowerCase\<close> is the platform's table of case mappings; the
  functions that call it take it as the argument \<open>lower\<close>, and what is proved of them
  holds for every function in its place.
\<close>

type_synonym jsstring = "nat list"

definition isWhiteSpace :: "nat \<Rightarrow> bool" where
  "isWhiteSpace c =
     (c \<in> {9, 10, 11, 12, 13, 32, 160, 5760, 8232, 8233, 8239, 8287, 12288, 65279}
      \<or> (8192 \<le> c \<and> c \<le> 8202))"

definition trim :: "jsstring \<Rightarrow> jsstring" where
  "trim s = rev (dropWhile isWhiteSpace (rev (dropWhile isWhiteSpace s)))"

fun startsWith :: "jsstring \<Rightarrow> jsstring \<Rightarrow> bool" where
  "startsWith s [] = True"
| "startsWith [] (c # q) = False"
| "startsWith (d # s) (c # q) = (d = c \<and> startsWith s q)"

fun includesText :: "jsstring \<Rightarrow> jsstring \<Rightarrow> bool" where
  "includesText [] q = (q = [])"
| "includesText (c # s) q = (startsWith (c # s) q \<or> includesText s q)"

text \<open>
  For writing examples: the code units of a string of ASCII characters, and
  \<open>toLowerCase\<close> on strings whose code units are below 256, where it maps \<open>A\<close> to
  \<open>Z\<close> and the capital letters of Latin-1 (U+00C0 to U+00DE without the multiplication
  sign U+00D7) to the code unit 32 above and leaves every other code unit.
\<close>

definition ascii :: "string \<Rightarrow> jsstring" where
  "ascii s = map of_char s"

definition latin1Lower :: "jsstring \<Rightarrow> jsstring" where
  "latin1Lower s =
     map (\<lambda>c. if (65 \<le> c \<and> c \<le> 90) \<or> (192 \<le> c \<and> c \<le> 222 \<and> c \<noteq> 215) then c + 32 else c) s"

subsection \<open>The manager and the page it acts on\<close>

text \<open>
  A voucher is a document of the remote collection; the search reads its
  \<open>voucherNumber\<close>, which may be missing.
\<close>

record voucher =
  voucherId :: jsstring
  voucherNumber :: "jsstring option"

text \<open>The texts \<open>showMessage\<close> writes to the message box.\<close>

datatype message =
    CachingData
  | CacheReady
  | Searching
  | NotFound jsstring
  | FoundCount nat
  | FoundTruncated

text \<open>
  The fields of the class (\<open>searchDebounceTimer\<close>, \<open>allVouchersCache\<close>,
  \<open>searchResults\<close>, \<open>isSearchMode\<close>, \<open>currentUserId\<close>; the map \<open>voucherCache\<close>,
  which no method reads, is left out), followed by what the manager
  reads and writes outside itself: the value of the search input (\<open>None\<close> when the page
  has no such element), the remote collection (\<open>None\<close> when \<open>getDocs\<close> fails), the
  history of the message box (each text with its error flag, latest last), the rows of the
  voucher table, the number of times the daily list was rendered, the errors passed to the
  error handler, and the timer table of the window: the pending timeouts, each with its
  identifier and the time it is due, the next identifier and the current time in
  milliseconds. Timer identifiers are positive.
\<close>

record VoucherManager =
  searchDebounceTimer :: "nat option"
  allVouchersCache :: "voucher list option"
  searchResults :: "voucher list"
  isSearchMode :: bool
  currentUserId :: "jsstring option"
  searchInput :: "jsstring option"
  remoteVouchers :: "voucher list option"
  messages :: "(message \<times> bool) list"
  voucherTableBody :: "voucher list"
  dailyRenders :: nat
  handledErrors :: "string list"
  timers :: "(nat \<times> nat) list"
  nextTimerId :: nat
  clock :: nat

definition showMessage :: "VoucherManager \<Rightarrow> message \<Rightarrow> bool \<Rightarrow> VoucherManager" where
  "showMessage w m isError = w\<lparr>messages := messages w @ [(m, isError)]\<rparr>"

definition setTimeout :: "VoucherManager \<Rightarrow> nat \<Rightarrow> nat \<times> VoucherManager" where
  "setTimeout w delay =
     (nextTimerId w,
      w\<lparr>timers := timers w @ [(nextTimerId w, clock w + delay)], nextTimerId := nextTimerId w + 1\<rparr>)"

definition clearTimeout :: "VoucherManager \<Rightarrow> nat \<Rightarrow> VoucherManager" where
  "clearTimeout w timerId = w\<lparr>timers := filter (\<lambda>(i, due). i \<noteq> timerId) (timers w)\<rparr>"

text \<open>\<open>if (this.searchDebounceTimer) clearTimeout(this.searchDebounceTimer)\<close>.\<close>

definition clearDebounceTimer :: "VoucherManager \<Rightarrow> VoucherManager" where
  "clearDebounceTimer w =
     (case searchDebounceTimer w of
        None \<Rightarrow> w
      | Some timerId \<Rightarrow> if timerId = 0 then w else clearTimeout w timerId)"

definition renderDailyVouchers :: "VoucherManager \<Rightarrow> VoucherManager" where
  "renderDailyVouchers w = (if isSearchMode w then w else w\<lparr>dailyRenders := dailyRenders w + 1\<rparr>)"

definition displaySearchResults :: "VoucherManager \<Rightarrow> VoucherManager" where
  "displaySearchResults w = w\<lparr>voucherTableBody := searchResults w\<rparr>"

definition loadAllVouchersCache :: "VoucherManager \<Rightarrow> VoucherManager" where
  "loadAllVouchersCache w =
     (if allVouchersCache w \<noteq> None then w
      else case remoteVouchers w of
             Some docs \<Rightarrow> showMessage ((showMessage w CachingData False)\<lparr>allVouchersCache := Some docs\<rparr>) CacheReady False
           | None \<Rightarrow> (showMessage w CachingData False)
                       \<lparr>handledErrors := handledErrors w @ [''Failed to load voucher cache''],
                        allVouchersCache := Some []\<rparr>)"

text \<open>
  The predicate of the scan: \<open>(voucher.voucherNumber || '').toString().toLowerCase()\<close>
  includes the query. A missing voucher number gives the empty string.
\<close>

definition numberText :: "voucher \<Rightarrow> jsstring" where
  "numberText v = (case voucherNumber v of None \<Rightarrow> [] | Some n \<Rightarrow> n)"

definition matchesQuery :: "(jsstring \<Rightarrow> jsstring) \<Rightarrow> jsstring \<Rightarrow> voucher \<Rightarrow> bool" where
  "matchesQuery lower searchQuery v = includesText (lower (numberText v)) searchQuery"

text \<open>
  The loop of \<open>performVoucherSearch\<close> over the records from index \<open>i\<close> on, with the
  results collected so far. It returns the results and the number of records examined
  when it leaves the loop, by \<open>break\<close> or at the end of the collection.
\<close>

fun searchLoop ::
  "(jsstring \<Rightarrow> jsstring) \<Rightarrow> jsstring \<Rightarrow> voucher list \<Rightarrow> voucher list \<Rightarrow> nat \<Rightarrow> voucher list \<times> nat" where
  "searchLoop lower searchQuery [] results i = (results, i)"
| "searchLoop lower searchQuery (v # rest) results i =
     (if matchesQuery lower searchQuery v
      then if length (results @ [v]) \<ge> 100 then (results @ [v], i + 1)
           else searchLoop lower searchQuery rest (results @ [v]) (i + 1)
      else searchLoop lower searchQuery rest results (i + 1))"

text \<open>
  \<open>performVoucherSearch\<close>. The read of the remote collection is awaited inside it; the
  model takes the call as one step. A cache that is still \<open>null\<close> after loading would
  throw at \<open>.length\<close> and reach the \<open>catch\<close>.
\<close>

definition voucherSearchQuery :: "VoucherManager \<Rightarrow> jsstring" where
  "voucherSearchQuery w = (case searchInput w of None \<Rightarrow> [] | Some v \<Rightarrow> trim v)"

definition userMissing :: "VoucherManager \<Rightarrow> bool" where
  "userMissing w = (currentUserId w = None \<or> currentUserId w = Some [])"

definition performVoucherSearch :: "(jsstring \<Rightarrow> jsstring) \<Rightarrow> VoucherManager \<Rightarrow> VoucherManager" where
  "performVoucherSearch lower w =
     (if voucherSearchQuery w = [] \<or> userMissing w then w
      else let w1 = (if allVouchersCache w = None then loadAllVouchersCache w else w);
               w2 = showMessage w1 Searching False
           in case allVouchersCache w2 of
                None \<Rightarrow> w2\<lparr>searchResults := [],
                             handledErrors := handledErrors w2 @ [''Failed to search vouchers'']\<rparr>
              | Some vouchers \<Rightarrow>
                  let w3 = w2\<lparr>searchResults :=
                                 fst (searchLoop lower (lower (voucherSearchQuery w)) vouchers [] 0)\<rparr>
                  in if length (searchResults w3) = 0
                     then (showMessage w3 (NotFound (voucherSearchQuery w)) True)\<lparr>isSearchMode := False\<rparr>
                     else displaySearchResults
                            (showMessage (w3\<lparr>isSearchMode := True\<rparr>)
                               (if length (searchResults w3) \<ge> 100 then FoundTruncated
                                else FoundCount (length (searchResults w3)))
                               False))"

text \<open>\<open>handleSearchInput\<close>, called with \<open>e.target.value\<close>.\<close>

definition handleSearchInput :: "VoucherManager \<Rightarrow> jsstring \<Rightarrow> VoucherManager" where
  "handleSearchInput w targetValue =
     (let w1 = clearDebounceTimer w
      in if trim targetValue = []
         then renderDailyVouchers (w1\<lparr>isSearchMode := False, searchResults := []\<rparr>)
         else case setTimeout w1 300 of
                (timerId, w2) \<Rightarrow> w2\<lparr>searchDebounceTimer := Some timerId\<rparr>)"

text \<open>The listener of \<open>keypress\<close> for the key \<open>Enter\<close>.\<close>

definition handleEnter :: "(jsstring \<Rightarrow> jsstring) \<Rightarrow> VoucherManager \<Rightarrow> VoucherManager" where
  "handleEnter lower w = performVoucherSearch lower (clearDebounceTimer w)"

text \<open>
  The events of the page. A keystroke changes the value of the input and then runs the
  \<open>input\<close> listener. When a timeout is due its callback runs, once, and the timeout leaves
  the table; the timeouts due by time \<open>t\<close> run before the event that arrives at \<open>t\<close>.
\<close>

definition keystroke :: "VoucherManager \<Rightarrow> jsstring \<Rightarrow> VoucherManager" where
  "keystroke w v = handleSearchInput (w\<lparr>searchInput := Some v\<rparr>) v"

definition fireTimer ::
  "(jsstring \<Rightarrow> jsstring) \<Rightarrow> nat \<Rightarrow> VoucherManager \<Rightarrow> nat \<times> nat \<Rightarrow> VoucherManager" where
  "fireTimer lower t w timer =
     (if snd timer \<le> t \<and> timer \<in> set (timers w)
      then performVoucherSearch lower (clearTimeout w (fst timer))
      else w)"

definition advance :: "(jsstring \<Rightarrow> jsstring) \<Rightarrow> VoucherManager \<Rightarrow> nat \<Rightarrow> VoucherManager" where
  "advance lower w t = foldl (fireTimer lower t) (w\<lparr>clock := max (clock w) t\<rparr>) (timers w)"

fun keystrokes ::
  "(jsstring \<Rightarrow> jsstring) \<Rightarrow> VoucherManager \<Rightarrow> (nat \<times> jsstring) list \<Rightarrow> VoucherManager" where
  "keystrokes lower w [] = w"
| "keystrokes lower w ((t, v) # rest) = keystrokes lower (keystroke (advance lower w t) v) rest"

text \<open>
  A burst after a keystroke at time \<open>t\<close>: every keystroke arrives no earlier than the
  previous one and less than the debounce delay of 300 ms after it. The time and the value
  of the last keystroke of a burst.
\<close>

fun withinDelay :: "nat \<Rightarrow> (nat \<times> jsstring) list \<Rightarrow> bool" where
  "withinDelay t [] = True"
| "withinDelay t ((t', v) # rest) = (t \<le> t' \<and> t' < t + 300 \<and> withinDelay t' rest)"

fun lastTime :: "nat \<Rightarrow> (nat \<times> jsstring) list \<Rightarrow> nat" where
  "lastTime t [] = t"
| "lastTime t ((t', v) # rest) = lastTime t' rest"

fun lastValue :: "jsstring \<Rightarrow> (nat \<times> jsstring) list \<Rightarrow> jsstring" where
  "lastValue v [] = v"
| "lastValue v ((t', v') # rest) = lastValue v' rest"

text \<open>The number of queries run so far: each writes \<open>Searching\<close> to the message box once.\<close>

definition queriesIssued :: "VoucherManager \<Rightarrow> nat" where
  "queriesIssued w = length (filter (\<lambda>m. fst m = Searching) (messages w))"

text \<open>
  At most one timeout is pending, and it is the one held in \<open>searchDebounceTimer\<close>;
  timer identifiers are positive.
\<close>

definition singleSlot :: "VoucherManager \<Rightarrow> bool" where
  "singleSlot w =
     (nextTimerId w \<noteq> 0 \<and>
      (case timers w of
         [] \<Rightarrow> True
       | [(i, due)] \<Rightarrow> searchDebounceTimer w = Some i \<and> i \<noteq> 0
       | _ \<Rightarrow> False))"

text \<open>
  The state right after a keystroke at time \<open>t\<close> that left the value \<open>v\<close> in the input:
  no timeout is pending when \<open>v\<close> is blank, and otherwise exactly the one armed by this
  keystroke, due at \<open>t + 300\<close>.
\<close>

definition armedAt :: "VoucherManager \<Rightarrow> nat \<Rightarrow> jsstring \<Rightarrow> bool" where
  "armedAt w t v =
     (searchInput w = Some v \<and> nextTimerId w \<noteq> 0 \<and> clock w = t \<and>
      (case timers w of
         [] \<Rightarrow> trim v = []
       | [(i, due)] \<Rightarrow> trim v \<noteq> [] \<and> due = t + 300 \<and> searchDebounceTimer w = Some i \<and> i \<noteq> 0
       | _ \<Rightarrow> False))"

text \<open>
  The collection a search scans: the cached one, or the one the first search loads (empty
  when loading fails). The matches of a raw query in a collection, in collection order, in
  the words of the specification: the records whose case-folded voucher number contains
  the trimmed, case-folded query as a substring (\<open>sublist\<close> of the library: a contiguous
  sublist). The guard of \<open>performVoucherSearch\<close>, the state in which its scan starts (the cache
  loaded, \<open>Searching\<close> shown) and the results of its scan.
\<close>

definition collectionSearched :: "VoucherManager \<Rightarrow> voucher list" where
  "collectionSearched w =
     (case allVouchersCache w of
        Some vouchers \<Rightarrow> vouchers
      | None \<Rightarrow> (case remoteVouchers w of Some docs \<Rightarrow> docs | None \<Rightarrow> []))"

definition matchingVouchers ::
  "(jsstring \<Rightarrow> jsstring) \<Rightarrow> jsstring \<Rightarrow> voucher list \<Rightarrow> voucher list" where
  "matchingVouchers lower rawQuery vouchers =
     filter (\<lambda>v. sublist (lower (trim rawQuery)) (lower (numberText v))) vouchers"

definition searchGuard :: "VoucherManager \<Rightarrow> bool" where
  "searchGuard w = (voucherSearchQuery w \<noteq> [] \<and> \<not> userMissing w)"

definition scanStart :: "VoucherManager \<Rightarrow> VoucherManager" where
  "scanStart w = showMessage (if allVouchersCache w = None then loadAllVouchersCache w else w) Searching False"

definition scanResults :: "(jsstring \<Rightarrow> jsstring) \<Rightarrow> VoucherManager \<Rightarrow> voucher list" where
  "scanResults lower w =
     fst (searchLoop lower (lower (voucherSearchQuery w)) (collectionSearched w) [] 0)"

text \<open>
  The state the constructor leaves, on a page that has the search input (empty) and whose
  remote collection is \<open>remote\<close>; and \<open>initialize\<close>, which stores the user and
  registers the listeners modelled by \<open>keystroke\<close> and \<open>handleEnter\<close>.
\<close>

definition new_VoucherManager :: "voucher list option \<Rightarrow> VoucherManager" where
  "new_VoucherManager remote =
     \<lparr>searchDebounceTimer = None, allVouchersCache = None, searchResults = [],
      isSearchMode = False, currentUserId = None, searchInput = Some [],
      remoteVouchers = remote, messages = [], voucherTableBody = [], dailyRenders = 0,
      handledErrors = [], timers = [], nextTimerId = 1, clock = 0\<rparr>"

definition initialize :: "VoucherManager \<Rightarrow> jsstring \<Rightarrow> VoucherManager" where
  "initialize w userId = w\<lparr>currentUserId := Some userId\<rparr>"

text \<open>
  Vouchers numbered \<open>K\<close>, U+00C4, \<open>-\<close> followed by a run of \<open>7\<close>, and one without a
  voucher number. A manager over the unnumbered voucher followed by 150 numbered ones,
  with U+00A0, U+00E4, \<open>-\<close> and a space typed into the input; and one over three numbered
  vouchers with \<open>zz\<close> between two U+00A0 typed. Both have not loaded their collection
  yet.
\<close>

definition numbered :: "nat \<Rightarrow> voucher" where
  "numbered n = \<lparr>voucherId = replicate n 105, voucherNumber = Some ([75, 196, 45] @ replicate n 55)\<rparr>"

definition unnumbered :: voucher where
  "unnumbered = \<lparr>voucherId = ascii ''x'', voucherNumber = None\<rparr>"

definition many_matches :: VoucherManager where
  "many_matches =
     (initialize (new_VoucherManager (Some (unnumbered # map numbered [0..<150]))) (ascii ''u1''))
       \<lparr>searchInput := Some [160, 228, 45, 32]\<rparr>"

definition no_matches :: VoucherManager where
  "no_matches =
     (initialize (new_VoucherManager (Some [numbered 0, numbered 1, numbered 2])) (ascii ''u1''))
       \<lparr>searchInput := Some [160, 122, 122, 160]\<rparr>"

text \<open>
  Two states of one session: the same queries run so far, the same cache, remote
  collection and user.
\<close>

definition sameSession :: "VoucherManager \<Rightarrow> VoucherManager \<Rightarrow> bool" where
  "sameSession w w' =
     (queriesIssued w' = queriesIssued w \<and> allVouchersCache w' = allVouchersCache w
      \<and> remoteVouchers w' = remoteVouchers w \<and> currentUserId w' = currentUserId w)"

text \<open>
  A manager over three vouchers before any typing, and the same after \<open>k\<close>, U+00C4 was
  typed at time 0, with the timeout of that keystroke pending.
\<close>

definition typing_session :: VoucherManager where
  "typing_session =
     initialize (new_VoucherManager (Some [numbered 0, numbered 1, numbered 2])) (ascii ''u1'')"

definition half_typed :: VoucherManager where
  "half_typed = keystroke typing_session [107, 196]"


section \<open>Verified properties\<close>

lemma cacheExpiry_value: "cacheExpiry = 300000"
  by (simp add: cacheExpiry_def)

subsection \<open>Eviction keeps the cache within its cap\<close>


lemma delete_fields:
  "cache (delete s k) = AList.delete k (cache s)"
  "cacheTimestamps (delete s k) = AList.delete k (cacheTimestamps s)"
  "maxCacheSize (delete s k) = maxCacheSize s"
  by (simp_all add: delete_def)

lemma foldl_delete_cache:
  "cache (foldl delete s ks) = filter (\<lambda>p. fst p \<notin> set ks) (cache s)"
  by (induction ks arbitrary: s) (auto simp: delete_fields AList.delete_eq intro!: filter_cong)

lemma foldl_delete_cacheTimestamps:
  "cacheTimestamps (foldl delete s ks) = filter (\<lambda>p. fst p \<notin> set ks) (cacheTimestamps s)"
  by (induction ks arbitrary: s) (auto simp: delete_fields AList.delete_eq intro!: filter_cong)

lemma foldl_delete_maxCacheSize:
  "maxCacheSize (foldl delete s ks) = maxCacheSize s"
  by (induction ks arbitrary: s) (auto simp: delete_fields)

lemma map_fst_filter_keys:
  "map fst (filter (\<lambda>p. fst p \<notin> K) al) = filter (\<lambda>k. k \<notin> K) (map fst al)"
  by (induction al) auto

lemma foldl_delete_aligned:
  "keys_aligned s \<Longrightarrow> keys_aligned (foldl delete s ks)"
  by (auto simp: keys_aligned_def foldl_delete_cache foldl_delete_cacheTimestamps map_fst_filter_keys)

lemma sorted_take_le_drop:
  assumes "sorted (map f xs)" "x \<in> set (take m xs)" "y \<in> set (drop m xs)"
  shows "f x \<le> f y"
proof -
  have "sorted (map f (take m xs) @ map f (drop m xs))"
    using assms(1) by (simp flip: map_append)
  then show ?thesis using assms(2,3) by (auto simp: sorted_append)
qed

text \<open>Removing the keys of a prefix of a re-ordering of a key-distinct list.\<close>

lemma filter_keys_of_take:
  assumes d: "distinct (map fst al)" and s: "set ys = set al" and dy: "distinct ys"
  shows "filter (\<lambda>p. fst p \<notin> set (map fst (take m ys))) al = filter (\<lambda>p. p \<in> set (drop m ys)) al"
proof (rule filter_cong[OF refl])
  fix p assume p: "p \<in> set al"
  have inj: "inj_on fst (set al)" using d by (simp add: distinct_map)
  have "fst p \<in> fst ` set (take m ys) \<longleftrightarrow> p \<in> set (take m ys)"
  proof
    assume "fst p \<in> fst ` set (take m ys)"
    then obtain q where q: "q \<in> set (take m ys)" "fst q = fst p" by auto
    then have "q \<in> set al" using s by (auto dest: in_set_takeD)
    with inj p q(2) have "q = p" by (auto dest: inj_onD)
    with q(1) show "p \<in> set (take m ys)" by simp
  qed auto
  moreover have "p \<in> set (take m ys) \<longleftrightarrow> p \<notin> set (drop m ys)"
  proof -
    have "set (take m ys) \<inter> set (drop m ys) = {}"
      using dy by (metis append_take_drop_id distinct_append)
    moreover have "p \<in> set (take m ys) \<union> set (drop m ys)"
      using p s by (metis append_take_drop_id set_append)
    ultimately show ?thesis by auto
  qed
  ultimately show "(fst p \<notin> set (map fst (take m ys))) = (p \<in> set (drop m ys))" by simp
qed

lemma length_filter_drop:
  assumes d: "distinct al" and s: "set ys = set al" and dy: "distinct ys"
  shows "length (filter (\<lambda>p. p \<in> set (drop m ys)) al) = length al - m"
proof -
  have "length (filter (\<lambda>p. p \<in> set (drop m ys)) al) = card (set (filter (\<lambda>p. p \<in> set (drop m ys)) al))"
    using d by (metis distinct_card distinct_filter)
  also have "set (filter (\<lambda>p. p \<in> set (drop m ys)) al) = set (drop m ys)"
    using s by (auto dest: in_set_dropD)
  also have "card (set (drop m ys)) = length (drop m ys)"
    using dy by (simp add: distinct_card)
  also have "\<dots> = length al - m"
    using d dy s by (metis distinct_card length_drop)
  finally show ?thesis .
qed


lemma filter_keys_of_filter:
  assumes d: "distinct (map fst al)"
  shows "filter (\<lambda>p. fst p \<notin> set (map fst (filter Q al))) al = filter (\<lambda>p. \<not> Q p) al"
proof (rule filter_cong[OF refl])
  fix p assume p: "p \<in> set al"
  have inj: "inj_on fst (set al)" using d by (simp add: distinct_map)
  have "fst p \<in> fst ` set (filter Q al) \<longleftrightarrow> Q p"
  proof
    assume "fst p \<in> fst ` set (filter Q al)"
    then obtain q where q: "q \<in> set al" "Q q" "fst q = fst p" by auto
    with inj p have "q = p" by (auto dest: inj_onD)
    with q(2) show "Q p" by simp
  next
    assume "Q p" with p show "fst p \<in> fst ` set (filter Q al)" by auto
  qed
  then show "(fst p \<notin> set (map fst (filter Q al))) = (\<not> Q p)" by simp
qed

lemma keys_aligned_length:
  "keys_aligned s \<Longrightarrow> length (cache s) = length (cacheTimestamps s)"
  by (metis keys_aligned_def length_map)

lemma keys_aligned_distinct_ts:
  "keys_aligned s \<Longrightarrow> distinct (map fst (cacheTimestamps s))"
  by (auto simp: keys_aligned_def)

lemma expired_removed:
  assumes "keys_aligned s"
  shows "cacheTimestamps (foldl delete s (expiredKeys_of s now)) = live_entries s now"
  using filter_keys_of_filter[OF keys_aligned_distinct_ts[OF assms], of "\<lambda>(key, timestamp). expired now timestamp"]
  by (simp add: foldl_delete_cacheTimestamps expiredKeys_of_def live_entries_def case_prod_unfold)

lemma cleanup_unfold:
  "cleanup s now =
     (let s1 = foldl delete s (expiredKeys_of s now)
      in if length (cache s1) > maxCacheSize s
         then foldl delete s1 (map fst (take (length (cache s1) - maxCacheSize s) (sort_key snd (cacheTimestamps s1))))
         else s1)"
  by (simp add: cleanup_def expiredKeys_of_def Let_def foldl_delete_maxCacheSize)

lemma cleanup_aligned: "keys_aligned s \<Longrightarrow> keys_aligned (cleanup s now)"
  by (simp add: cleanup_unfold Let_def foldl_delete_aligned)

lemma cleanup_maxCacheSize: "maxCacheSize (cleanup s now) = maxCacheSize s"
  by (simp add: cleanup_unfold Let_def foldl_delete_maxCacheSize)

lemma distinct_live: "keys_aligned s \<Longrightarrow> distinct (map fst (live_entries s now))"
  by (simp add: live_entries_def keys_aligned_distinct_ts distinct_map_filter)

lemma cleanup_timestamps:
  assumes a: "keys_aligned s"
  shows "cacheTimestamps (cleanup s now) =
         filter (\<lambda>p. p \<in> set (drop (length (live_entries s now) - maxCacheSize s)
                                  (sort_key snd (live_entries s now))))
                (live_entries s now)"
proof -
  let ?s1 = "foldl delete s (expiredKeys_of s now)"
  let ?live = "live_entries s now"
  have ts1: "cacheTimestamps ?s1 = ?live" by (rule expired_removed[OF a])
  have len1: "length (cache ?s1) = length ?live"
    using keys_aligned_length[OF foldl_delete_aligned[OF a]] ts1 by simp
  have dl: "distinct (map fst ?live)" by (rule distinct_live[OF a])
  show ?thesis
  proof (cases "length ?live > maxCacheSize s")
    case True
    have "cacheTimestamps (cleanup s now) =
          filter (\<lambda>p. fst p \<notin> set (map fst (take (length ?live - maxCacheSize s) (sort_key snd ?live)))) ?live"
    proof -
      let ?ks = "map fst (take (length ?live - maxCacheSize s) (sort_key snd ?live))"
      have c: "cleanup s now = foldl delete ?s1 ?ks"
        using True by (simp add: cleanup_unfold Let_def len1 ts1)
      have h: "cacheTimestamps (foldl delete ?s1 ?ks) = filter (\<lambda>p. fst p \<notin> set ?ks) (cacheTimestamps ?s1)"
        by (rule foldl_delete_cacheTimestamps)
      show ?thesis unfolding c h ts1 by (rule refl)
    qed
    also have "\<dots> = filter (\<lambda>p. p \<in> set (drop (length ?live - maxCacheSize s) (sort_key snd ?live))) ?live"
      using dl by (intro filter_keys_of_take) (auto simp: distinct_map)
    finally show ?thesis .
  next
    case False
    then have "cacheTimestamps (cleanup s now) = ?live"
      by (simp add: cleanup_unfold Let_def len1 ts1)
    moreover have "length ?live - maxCacheSize s = 0" using False by simp
    ultimately show ?thesis by simp
  qed
qed

lemma cleanup_size:
  assumes a: "keys_aligned s"
  shows "length (cache (cleanup s now)) = min (length (live_entries s now)) (maxCacheSize s)"
proof -
  have dl: "distinct (live_entries s now)"
    using distinct_live[OF a] by (simp add: distinct_map)
  have "length (cache (cleanup s now)) = length (cacheTimestamps (cleanup s now))"
    by (rule keys_aligned_length[OF cleanup_aligned[OF a]])
  also have "\<dots> = length (live_entries s now) - (length (live_entries s now) - maxCacheSize s)"
    unfolding cleanup_timestamps[OF a] using dl by (intro length_filter_drop) auto
  finally show ?thesis by simp
qed

lemma cleanup_oldest_first:
  assumes a: "keys_aligned s"
    and x: "x \<in> set (live_entries s now)" "x \<notin> set (cacheTimestamps (cleanup s now))"
    and y: "y \<in> set (cacheTimestamps (cleanup s now))"
  shows "snd x \<le> snd y"
proof -
  let ?live = "live_entries s now"
  let ?m = "length ?live - maxCacheSize s"
  have "x \<notin> set (drop ?m (sort_key snd ?live))"
    using x by (simp add: cleanup_timestamps[OF a])
  moreover have "x \<in> set (take ?m (sort_key snd ?live)) \<union> set (drop ?m (sort_key snd ?live))"
    using x(1) by (metis append_take_drop_id set_append set_sort)
  ultimately have xt: "x \<in> set (take ?m (sort_key snd ?live))" by simp
  have yd: "y \<in> set (drop ?m (sort_key snd ?live))"
    using y by (simp add: cleanup_timestamps[OF a])
  show ?thesis
    by (rule sorted_take_le_drop[OF _ xt yd]) simp
qed


lemma saveToStorage_fields:
  "cache (saveToStorage s k d t) = cache s"
  "cacheTimestamps (saveToStorage s k d t) = cacheTimestamps s"
  "maxCacheSize (saveToStorage s k d t) = maxCacheSize s"
  by (simp_all add: saveToStorage_def)

lemma update_aligned:
  assumes "keys_aligned s"
  shows "keys_aligned (s\<lparr>cache := AList.update k d (cache s), cacheTimestamps := AList.update k t (cacheTimestamps s)\<rparr>)"
  using assms by (auto simp: keys_aligned_def update_keys distinct_update)

lemma saveToStorage_aligned: "keys_aligned (saveToStorage s k d t) = keys_aligned s"
  by (simp add: keys_aligned_def saveToStorage_fields)

lemma set_cache_aligned:
  assumes "keys_aligned s"
  shows "keys_aligned (set_cache s key payload expiry now)"
proof -
  let ?s1 = "s\<lparr>cache := AList.update key payload (cache s),
                cacheTimestamps := AList.update key now (cacheTimestamps s)\<rparr>"
  have a1: "keys_aligned ?s1" by (rule update_aligned[OF assms])
  have "keys_aligned (if length (cache ?s1) > maxCacheSize ?s1 then cleanup ?s1 now else ?s1)"
    using a1 cleanup_aligned[OF a1] by simp
  then show ?thesis by (simp add: set_cache_def Let_def saveToStorage_aligned)
qed

lemma set_cache_maxCacheSize: "maxCacheSize (set_cache s key payload expiry now) = maxCacheSize s"
  by (simp add: set_cache_def Let_def saveToStorage_fields cleanup_maxCacheSize)

lemma set_cache_size:
  assumes "keys_aligned s"
  shows "length (cache (set_cache s key payload expiry now)) \<le> maxCacheSize s"
  using cleanup_size[OF update_aligned[OF assms, where k=key and d=payload and t=now], of now]
  by (simp add: set_cache_def Let_def saveToStorage_fields)

lemma set_calls_aligned: "keys_aligned s \<Longrightarrow> keys_aligned (set_calls s calls)"
  by (induction s calls rule: set_calls.induct) (simp_all add: set_cache_aligned)

lemma set_calls_maxCacheSize: "maxCacheSize (set_calls s calls) = maxCacheSize s"
  by (induction s calls rule: set_calls.induct) (simp_all add: set_cache_maxCacheSize)

lemma set_calls_size:
  "keys_aligned s \<Longrightarrow> calls \<noteq> [] \<Longrightarrow> length (cache (set_calls s calls)) \<le> maxCacheSize s"
proof (induction s calls rule: set_calls.induct)
  case (1 s)
  then show ?case by simp
next
  case (2 s key payload expiry now rest)
  show ?case
  proof (cases rest)
    case Nil
    then show ?thesis using set_cache_size[OF "2.prems"(1)] by simp
  next
    case (Cons c cs)
    then show ?thesis
      using "2.IH"[OF set_cache_aligned[OF "2.prems"(1)]] by (simp add: set_cache_maxCacheSize)
  qed
qed

lemma new_CacheManager_aligned: "keys_aligned (new_CacheManager store writable)"
  by (simp add: new_CacheManager_def keys_aligned_def)

text \<open>
  With expiry as \<open>cleanup\<close> tests it, against the global \<open>appConfig.cacheExpiry\<close>:
  from a manager whose two maps are aligned (the constructor's is, and \<open>set\<close> keeps
  them so), every \<open>set\<close>, hence every run of \<open>set\<close> calls, leaves at most
  \<open>maxCacheSize\<close> entries in memory. When \<open>cleanup\<close> runs, every entry it keeps is
  younger than \<open>cacheExpiry\<close>; it keeps all of those when they fit the cap, and otherwise
  exactly \<open>maxCacheSize\<close> of them, and every such entry it removed was stored no later
  than every entry it kept (oldest stored first).
\<close>

lemma eviction_within_cap:
  assumes "keys_aligned s"
  shows "length (cache (set_cache s key payload expiry now)) \<le> maxCacheSize s
       \<and> keys_aligned (set_cache s key payload expiry now)
       \<and> (calls \<noteq> [] \<longrightarrow> length (cache (set_calls s calls)) \<le> maxCacheSize s)
       \<and> length (cache (set_calls (new_CacheManager store writable) calls)) \<le> 50
       \<and> set (cacheTimestamps (cleanup s now)) \<subseteq> set (live_entries s now)
       \<and> map fst (cache (cleanup s now)) = map fst (cacheTimestamps (cleanup s now))
       \<and> length (cache (cleanup s now)) = min (length (live_entries s now)) (maxCacheSize s)
       \<and> (length (live_entries s now) \<le> maxCacheSize s \<longrightarrow> cacheTimestamps (cleanup s now) = live_entries s now)
       \<and> (\<forall>x \<in> set (live_entries s now). \<forall>y \<in> set (cacheTimestamps (cleanup s now)).
             x \<notin> set (cacheTimestamps (cleanup s now)) \<longrightarrow> snd x \<le> snd y)"
proof -
  have 1: "length (cache (set_cache s key payload expiry now)) \<le> maxCacheSize s"
    by (rule set_cache_size[OF assms])
  have 2: "keys_aligned (set_cache s key payload expiry now)"
    by (rule set_cache_aligned[OF assms])
  have 3: "calls \<noteq> [] \<longrightarrow> length (cache (set_calls s calls)) \<le> maxCacheSize s"
    using set_calls_size[OF assms] by blast
  have 4: "length (cache (set_calls (new_CacheManager store writable) calls)) \<le> 50"
  proof (cases calls)
    case Nil
    then show ?thesis by (simp add: new_CacheManager_def)
  next
    case (Cons c cs)
    then show ?thesis
      using set_calls_size[OF new_CacheManager_aligned, of calls store writable]
      by (simp add: new_CacheManager_def)
  qed
  have 5: "set (cacheTimestamps (cleanup s now)) \<subseteq> set (live_entries s now)"
    by (simp add: cleanup_timestamps[OF assms])
  have 6: "map fst (cache (cleanup s now)) = map fst (cacheTimestamps (cleanup s now))"
    using cleanup_aligned[OF assms] by (simp add: keys_aligned_def)
  have 7: "length (cache (cleanup s now)) = min (length (live_entries s now)) (maxCacheSize s)"
    by (rule cleanup_size[OF assms])
  have 8: "length (live_entries s now) \<le> maxCacheSize s \<longrightarrow> cacheTimestamps (cleanup s now) = live_entries s now"
    by (simp add: cleanup_timestamps[OF assms])
  have 9: "\<forall>x \<in> set (live_entries s now). \<forall>y \<in> set (cacheTimestamps (cleanup s now)).
             x \<notin> set (cacheTimestamps (cleanup s now)) \<longrightarrow> snd x \<le> snd y"
    using cleanup_oldest_first[OF assms] by blast
  from 1 2 3 4 5 6 7 8 9 show ?thesis by blast
qed

text \<open>
  The scenario of the specification: cap 2, then \<open>set\<close> of \<open>a\<close>, \<open>b\<close>, \<open>c\<close> in
  order within the expiry; the store retains \<open>b\<close> and \<open>c\<close>.
\<close>

lemma eviction_within_cap_example:
  "keys_aligned cache_of_two
   \<and> length (cache (set_calls cache_of_two
        [(''a'', JNum 1, 300000, 1000), (''b'', JNum 2, 300000, 2000), (''c'', JNum 3, 300000, 3000)]))
       \<le> maxCacheSize cache_of_two
   \<and> map fst (cache (set_calls cache_of_two
        [(''a'', JNum 1, 300000, 1000), (''b'', JNum 2, 300000, 2000), (''c'', JNum 3, 300000, 3000)]))
       = [''b'', ''c'']"
proof -
  have h: "keys_aligned cache_of_two"
    by (simp add: cache_of_two_def new_CacheManager_def keys_aligned_def)
  have "map fst (cache (set_calls cache_of_two
        [(''a'', JNum 1, 300000, 1000), (''b'', JNum 2, 300000, 2000), (''c'', JNum 3, 300000, 3000)]))
       = [''b'', ''c'']"
    by (simp add: cache_of_two_def new_CacheManager_def set_cache_def cleanup_def saveToStorage_def
        delete_def expired_def cacheExpiry_def storageKey_def Let_def)
  then show ?thesis
    using h eviction_within_cap[OF h, where calls =
        "[(''a'', JNum 1, 300000, 1000), (''b'', JNum 2, 300000, 2000), (''c'', JNum 3, 300000, 3000)]"]
    by simp
qed

text \<open>
  Claim C2 at a concrete input. The cap is 2; \<open>a\<close> is stored at time 1000 with a ttl of
  300000 ms, \<open>b\<close> at 2000 with a ttl of 1000 ms and \<open>c\<close> at 4000. When the third
  \<open>set\<close> runs \<open>cleanup\<close>, \<open>b\<close> is 2000 ms old, past the ttl passed to its \<open>set\<close>,
  and \<open>a\<close> is within its own. \<open>cleanup\<close> compares both ages with
  \<open>appConfig.cacheExpiry\<close>, counts neither entry as expired and deletes the one stored
  first: the store retains \<open>b\<close> and \<open>c\<close>, and \<open>get\<close> still returns the payload of
  \<open>b\<close>.
\<close>

theorem eviction_keeps_entry_past_ttl:
  "map fst (cache (set_cache (set_cache (set_cache cache_of_two
       ''a'' (JNum 1) 300000 1000) ''b'' (JNum 2) 1000 2000) ''c'' (JNum 3) 300000 4000))
     = [''b'', ''c'']
   \<and> fst (get (set_cache (set_cache (set_cache cache_of_two
       ''a'' (JNum 1) 300000 1000) ''b'' (JNum 2) 1000 2000) ''c'' (JNum 3) 300000 4000) ''b'' 4000)
     = JNum 2
   \<and> 4000 - 2000 > (1000::int) \<and> 4000 - 1000 \<le> (300000::int)"
  by (simp add: cache_of_two_def new_CacheManager_def set_cache_def cleanup_def saveToStorage_def
      delete_def expired_def cacheExpiry_def storageKey_def get_def mapGet_def Let_def)

subsection \<open>The ttl argument of set\<close>

lemma set_cache_ignores_expiry:
  "set_cache s key payload expiry now = set_cache s key payload expiry' now"
  by (simp add: set_cache_def)

text \<open>
  On a fresh manager the boundary of \<open>get\<close> after \<open>set\<close> is the global
  \<open>cacheExpiry\<close>, whatever ttl was passed.
\<close>

lemma get_after_set_global_expiry:
  assumes "stored_at \<noteq> 0"
  shows "fst (get (set_cache (new_CacheManager store writable) key payload expiry stored_at) key now)
         = (if now - stored_at > cacheExpiry then JNull else payload)"
  using assms
  by (simp add: new_CacheManager_def set_cache_def saveToStorage_def get_def mapGet_def
      expired_def delete_def Let_def)

text \<open>
  Claim C1 at a concrete input. A payload is stored at time 1 with a ttl of 1000 ms and read
  at time 2001: the age 2000 exceeds the ttl passed to \<open>set\<close>, and \<open>get\<close> still
  returns the payload, because every expiry test compares with \<open>appConfig.cacheExpiry\<close>.
\<close>

theorem get_after_ttl_returns_payload:
  "fst (get (set_cache (new_CacheManager [] True) ''v'' (JStr ''X'') 1000 1) ''v'' 2001) = JStr ''X''
   \<and> 2001 - 1 > (1000::int)"
  by (simp add: new_CacheManager_def set_cache_def saveToStorage_def get_def mapGet_def
      expired_def cacheExpiry_def storageKey_def Let_def)

subsection \<open>getOrFetch\<close>

lemma getOrFetch_hit:
  "truthy (fst (get s key now)) \<Longrightarrow>
   getOrFetch s key fetchFunction expiry now now' w = (Inr (fst (get s key now)), snd (get s key now), w)"
  by (cases "get s key now") (simp add: getOrFetch_def)

lemma getOrFetch_failure:
  "\<not> truthy (fst (get s key now)) \<Longrightarrow> fetchFunction w = (Inl err, w') \<Longrightarrow>
   getOrFetch s key fetchFunction expiry now now' w = (Inl err, snd (get s key now), w')"
  by (cases "get s key now") (simp add: getOrFetch_def)

lemma getOrFetch_success:
  "\<not> truthy (fst (get s key now)) \<Longrightarrow> fetchFunction w = (Inr payload, w') \<Longrightarrow>
   getOrFetch s key fetchFunction expiry now now' w
     = (Inr payload, set_cache (snd (get s key now)) key payload expiry now', w')"
  by (cases "get s key now") (simp add: getOrFetch_def)

text \<open>
  Claim C7 at a concrete input. The key \<open>monthly_totals\<close> holds the payload \<open>0\<close>,
  stored at time 1000; at time 2000 the entry is unexpired and \<open>get\<close> returns it. The
  loader counts its invocations and yields \<open>5\<close>. \<open>getOrFetch\<close> tests the cached
  value for truthiness, so it invokes the loader once, returns \<open>5\<close> and overwrites the
  entry.
\<close>

theorem getOrFetch_refetches_falsy_payload:
  "get (set_cache (new_CacheManager [] True) ''monthly_totals'' (JNum 0) 300000 1000) ''monthly_totals'' 2000
     = (JNum 0, set_cache (new_CacheManager [] True) ''monthly_totals'' (JNum 0) 300000 1000)
   \<and> (case getOrFetch (set_cache (new_CacheManager [] True) ''monthly_totals'' (JNum 0) 300000 1000)
            ''monthly_totals'' (\<lambda>n::nat. (Inr (JNum 5), Suc n)) 300000 2000 2001 0 of
        (result, s', invocations) \<Rightarrow>
          result = Inr (JNum 5) \<and> invocations = 1 \<and> mapGet (cache s') ''monthly_totals'' = JNum 5)"
  by (simp add: new_CacheManager_def set_cache_def saveToStorage_def get_def mapGet_def getOrFetch_def
      expired_def cacheExpiry_def storageKey_def Let_def)

subsection \<open>Rounding to the nearest double\<close>

lemma floorlog2_One: "floorlog 2 (numeral Num.One) = 1"
  by (subst compute_floorlog) (simp add: floorlog_def)

lemma floorlog2_Suc0: "floorlog 2 (Suc 0) = 1"
  by (subst compute_floorlog) (simp add: floorlog_def)

lemma floorlog2_1: "floorlog 2 1 = 1"
  using floorlog2_Suc0 by simp

lemma floorlog2_0: "floorlog 2 0 = 0"
  by (simp add: floorlog_def)

lemma floorlog2_Bit0: "floorlog 2 (numeral (Num.Bit0 n)) = floorlog 2 (numeral n) + 1"
  by (subst compute_floorlog) simp

lemma floorlog2_Bit1: "floorlog 2 (numeral (Num.Bit1 n)) = floorlog 2 (numeral n) + 1"
proof -
  have "(numeral (Num.Bit1 n) :: nat) div 2 = numeral n"
    by (simp only: numeral_Bit1_div_2)
  then show ?thesis by (subst compute_floorlog) simp
qed

lemma floor_rat_numeral:
  "\<lfloor>numeral a / numeral b :: rat\<rfloor> = numeral a div numeral b"
  "\<lfloor>- (numeral a / numeral b) :: rat\<rfloor> = - numeral a div numeral b"
  "\<lfloor>1 / numeral b :: rat\<rfloor> = 1 div numeral b"
  "\<lfloor>- (1 / numeral b) :: rat\<rfloor> = - 1 div numeral b"
  using floor_divide_of_int_eq[of "numeral a" "numeral b", where ?'a = rat]
    floor_divide_of_int_eq[of "- numeral a" "numeral b", where ?'a = rat]
    floor_divide_of_int_eq[of 1 "numeral b", where ?'a = rat]
    floor_divide_of_int_eq[of "- 1" "numeral b", where ?'a = rat]
  by simp_all

lemma ceiling_rat_numeral:
  "\<lceil>numeral a / numeral b :: rat\<rceil> = - (- numeral a div numeral b)"
  "\<lceil>- (numeral a / numeral b) :: rat\<rceil> = - (numeral a div numeral b)"
  "\<lceil>1 / numeral b :: rat\<rceil> = - (- 1 div numeral b)"
  "\<lceil>- (1 / numeral b) :: rat\<rceil> = - (1 div numeral b)"
  by (simp_all add: ceiling_def floor_rat_numeral)

text \<open>The facts that evaluate the rounding of a numeral.\<close>

lemmas fl_eval = fl_def num_def maxDouble_def nearest_def quantum_def ilog2_def rne_def Let_def
  floor_rat_numeral ceiling_rat_numeral
  floorlog2_One floorlog2_Suc0 floorlog2_1 floorlog2_0 floorlog2_Bit0 floorlog2_Bit1

lemma ilog2_bounds:
  assumes "0 < x"
  shows "2 powi (ilog2 x) \<le> x" and "x < 2 powi (ilog2 x + 1)"
proof -
  have "2 powi (ilog2 x) \<le> x \<and> x < 2 powi (ilog2 x + 1)"
  proof (cases "1 \<le> x")
    case True
    define n where "n = nat \<lfloor>x\<rfloor>"
    define L where "L = floorlog 2 n"
    have n1: "1 \<le> n" using True by (simp add: n_def le_nat_iff)
    have "int n = \<lfloor>x\<rfloor>" using True by (simp add: n_def)
    then have nf: "(of_nat n :: rat) = of_int \<lfloor>x\<rfloor>" by (metis of_int_of_nat_eq)
    have nx: "of_nat n \<le> x" "x < of_nat n + 1"
      unfolding nf by linarith+
    from floorlog_bounds[of n 2] n1 have b: "2 ^ (L - 1) \<le> n" "n < 2 ^ L"
      by (simp_all add: L_def)
    have L1: "1 \<le> L" using b(2) n1 by (cases L) simp_all
    have e: "ilog2 x = int L - 1" using True by (simp add: ilog2_def n_def L_def)
    have p1: "(2::rat) powi (int L - 1) = 2 ^ (L - 1)"
      using L1 by (metis of_nat_1 of_nat_diff power_int_of_nat)
    have "(of_nat (2 ^ (L - 1)) :: rat) \<le> of_nat n"
      using b(1) by (simp only: of_nat_le_iff)
    then have "(2::rat) ^ (L - 1) \<le> of_nat n" by simp
    then have "(2::rat) ^ (L - 1) \<le> x" using nx(1) by (rule order_trans)
    then have lo: "2 powi (ilog2 x) \<le> x" by (simp only: e p1)
    have "n + 1 \<le> 2 ^ L" using b(2) by simp
    then have "(of_nat (n + 1) :: rat) \<le> of_nat (2 ^ L)" by (simp only: of_nat_le_iff)
    then have "(of_nat n :: rat) + 1 \<le> 2 ^ L" by simp
    then have hi: "x < 2 powi (ilog2 x + 1)" using nx(2) by (simp add: e)
    from lo hi show ?thesis ..
  next
    case False
    define y where "y = 1 / x"
    have y1: "1 < y" using False assms by (simp add: y_def)
    define m where "m = nat (\<lceil>y\<rceil> - 1)"
    define L where "L = floorlog 2 m"
    have c2: "2 \<le> \<lceil>y\<rceil>" using y1 by (simp add: le_ceiling_iff)
    have m1: "1 \<le> m" using c2 unfolding m_def by linarith
    have mi: "int m = \<lceil>y\<rceil> - 1" using c2 unfolding m_def by linarith
    have mf: "(of_nat m :: rat) = of_int \<lceil>y\<rceil> - 1"
    proof -
      have "(of_nat m :: rat) = of_int (int m)" by simp
      also have "\<dots> = of_int (\<lceil>y\<rceil> - 1)" by (simp only: mi)
      finally show ?thesis by simp
    qed
    have my: "of_nat m < y" "y \<le> of_nat m + 1"
      unfolding mf by linarith+
    from floorlog_bounds[of m 2] m1 have b: "2 ^ (L - 1) \<le> m" "m < 2 ^ L"
      by (simp_all add: L_def)
    have L1: "1 \<le> L" using b(2) m1 by (cases L) simp_all
    have e: "ilog2 x = - int L" using False by (simp add: ilog2_def m_def L_def y_def)
    have "m + 1 \<le> 2 ^ L" using b(2) by simp
    then have "(of_nat (m + 1) :: rat) \<le> of_nat (2 ^ L)" by (simp only: of_nat_le_iff)
    then have "(of_nat m :: rat) + 1 \<le> 2 ^ L" by simp
    then have yL: "y \<le> 2 ^ L" using my(2) by simp
    have "(of_nat (2 ^ (L - 1)) :: rat) \<le> of_nat m"
      using b(1) by (simp only: of_nat_le_iff)
    then have "(2::rat) ^ (L - 1) \<le> of_nat m" by simp
    then have yl: "2 ^ (L - 1) < y" using my(1) by (rule le_less_trans)
    have xy: "x = 1 / y" using assms by (simp add: y_def)
    have yx: "1 / y = x" using assms by (simp add: y_def)
    have "1 / 2 ^ L \<le> 1 / y" using yL y1 by (simp add: frac_le)
    then have lo: "2 powi (ilog2 x) \<le> x"
      by (simp only: e power_int_minus_divide power_int_of_nat yx)
    have p: "(2::rat) powi (- int L + 1) = 1 / 2 ^ (L - 1)"
    proof -
      have "- int L + 1 = - int (L - 1)" using L1 by simp
      then show ?thesis by (simp only: power_int_minus_divide power_int_of_nat)
    qed
    have "(0::rat) < 2 ^ (L - 1)" by simp
    then have "1 / y < 1 / 2 ^ (L - 1)" using yl by (simp add: frac_less2)
    then have hi: "x < 2 powi (ilog2 x + 1)"
      by (simp only: e p yx)
    from lo hi show ?thesis ..
  qed
  then show "2 powi (ilog2 x) \<le> x" and "x < 2 powi (ilog2 x + 1)" by simp_all
qed

lemma rne_of_int: "rne (of_int k) = k"
  by (simp add: rne_def)

lemma rne_error: "\<bar>of_int (rne y) - y\<bar> \<le> 1 / 2"
proof -
  have "of_int \<lfloor>y\<rfloor> \<le> y" "y < of_int \<lfloor>y\<rfloor> + 1" by linarith+
  then show ?thesis
    by (auto simp: rne_def Let_def abs_le_iff)
qed

lemma quantum_pos: "0 < quantum x"
  by (simp add: quantum_def)

text \<open>Integers of magnitude up to \<open>2 ^ 53\<close> are doubles.\<close>

lemma nearest_of_int:
  assumes "\<bar>n\<bar> \<le> 2 ^ 53"
  shows "nearest (of_int n) = of_int n"
proof (cases "n = 0")
  case True
  then show ?thesis by (simp add: nearest_def)
next
  case False
  define x :: rat where "x = of_int n"
  define e where "e = ilog2 \<bar>x\<bar>"
  have x1: "1 \<le> \<bar>x\<bar>" using False by (simp add: x_def flip: of_int_abs)
  have x53: "\<bar>x\<bar> \<le> 2 ^ 53"
  proof -
    have "(of_int \<bar>n\<bar> :: rat) \<le> of_int (2 ^ 53)" using assms by (simp only: of_int_le_iff)
    then show ?thesis by (simp add: x_def)
  qed
  have xp: "0 < \<bar>x\<bar>" using x1 by simp
  have lo: "2 powi e \<le> \<bar>x\<bar>" and hi: "\<bar>x\<bar> < 2 powi (e + 1)"
    unfolding e_def using ilog2_bounds[OF xp] by simp_all
  have e0: "0 \<le> e"
  proof (rule ccontr)
    assume "\<not> 0 \<le> e"
    then have "e + 1 \<le> 0" by simp
    then have "(2::rat) powi (e + 1) \<le> 2 powi 0" by (intro power_int_increasing) simp_all
    with hi x1 show False by simp
  qed
  have e53: "e \<le> 53"
  proof (rule ccontr)
    assume "\<not> e \<le> 53"
    then have "54 \<le> e" by simp
    then have "(2::rat) powi 54 \<le> 2 powi e" by (intro power_int_increasing) simp_all
    with lo x53 show False by simp
  qed
  have q: "quantum x = 2 powi (e - 52)"
    using e0 by (simp add: quantum_def e_def max_def)
  have "\<exists>k. x / quantum x = of_int k"
  proof (cases "e \<le> 52")
    case True
    have "x / quantum x = x * 2 powi (52 - e)"
      unfolding q by (simp add: power_int_diff field_simps)
    also have "(2::rat) powi (52 - e) = 2 ^ nat (52 - e)"
      using True by (simp add: power_int_def)
    also have "x * 2 ^ nat (52 - e) = of_int (n * 2 ^ nat (52 - e))"
      by (simp add: x_def)
    finally show ?thesis by blast
  next
    case False
    then have e: "e = 53" using e53 by simp
    have "\<bar>x\<bar> = 2 ^ 53" using lo x53 by (simp add: e)
    then have "\<bar>n\<bar> = 2 ^ 53"
      unfolding x_def by (metis of_int_abs of_int_eq_numeral_power_cancel_iff)
    then have "n = 2 * 2 ^ 52 \<or> n = 2 * (- (2 ^ 52))" by (simp add: abs_if split: if_splits)
    then obtain k where "n = 2 * k" by blast
    then have "x / quantum x = of_int k" unfolding q e by (simp add: x_def)
    then show ?thesis by blast
  qed
  then obtain k where k: "x / quantum x = of_int k" by blast
  have "nearest x = of_int (rne (x / quantum x)) * quantum x"
    using False by (simp add: nearest_def x_def)
  also have "\<dots> = (x / quantum x) * quantum x" by (simp add: k rne_of_int)
  also have "\<dots> = x" using quantum_pos[of x] by simp
  finally show ?thesis by (simp add: x_def)
qed

text \<open>In the range of normal doubles the rounding error is at most \<open>2 ^ - 53\<close> of the value.\<close>

lemma nearest_error:
  assumes "1 / 2 ^ 1022 \<le> \<bar>x\<bar>"
  shows "\<bar>nearest x - x\<bar> \<le> \<bar>x\<bar> / 2 ^ 53"
proof -
  define e where "e = ilog2 \<bar>x\<bar>"
  have "(0::rat) < 1 / 2 ^ 1022" by simp
  then have xp: "0 < \<bar>x\<bar>" using assms by (rule less_le_trans)
  then have x0: "x \<noteq> 0" by simp
  have lo: "2 powi e \<le> \<bar>x\<bar>" and hi: "\<bar>x\<bar> < 2 powi (e + 1)"
    unfolding e_def using ilog2_bounds[OF xp] by simp_all
  have en: "- 1022 \<le> e"
  proof (rule ccontr)
    assume "\<not> - 1022 \<le> e"
    then have "e + 1 \<le> - 1022" by simp
    then have "(2::rat) powi (e + 1) \<le> 2 powi (- 1022)" by (intro power_int_increasing) simp_all
    with hi assms show False by (simp add: power_int_minus_divide)
  qed
  define q where "q = quantum x"
  have q: "q = 2 powi (e - 52)"
    using en by (simp add: q_def quantum_def e_def max_def)
  have qp: "0 < q" by (simp add: q_def quantum_pos)
  have "nearest x - x = (of_int (rne (x / q)) - x / q) * q"
    using x0 qp by (simp add: nearest_def q_def algebra_simps)
  then have "\<bar>nearest x - x\<bar> = \<bar>of_int (rne (x / q)) - x / q\<bar> * q"
    using qp by (simp add: abs_mult)
  also have "\<dots> \<le> (1 / 2) * q"
    using rne_error[of "x / q"] qp by (intro mult_right_mono) simp_all
  also have "\<dots> = 2 powi e / 2 ^ 53"
    unfolding q by (simp add: power_int_diff)
  also have "\<dots> \<le> \<bar>x\<bar> / 2 ^ 53"
    using lo by (simp add: divide_right_mono)
  finally show ?thesis .
qed

lemma fl_of_int:
  assumes "\<bar>n\<bar> \<le> 2 ^ 53"
  shows "fl (of_int n) = Fin (of_int n)"
proof -
  have "(of_int \<bar>n\<bar> :: rat) \<le> of_int (2 ^ 53)" using assms by (simp only: of_int_le_iff)
  then have b: "\<bar>of_int n :: rat\<bar> \<le> 2 ^ 53" by simp
  have "(2::rat) ^ 53 < 2 ^ 1024" by simp
  with b have "\<bar>of_int n :: rat\<bar> < 2 ^ 1024" by (rule le_less_trans)
  then show ?thesis
    by (simp add: fl_def nearest_of_int[OF assms] abs_less_iff not_le)
qed

lemma num_of_int:
  assumes "\<bar>n\<bar> \<le> 2 ^ 53"
  shows "num (of_int n) = Fin (of_int n)"
proof -
  have "(of_int \<bar>n\<bar> :: rat) \<le> of_int (2 ^ 53)" using assms by (simp only: of_int_le_iff)
  then have b: "\<bar>of_int n :: rat\<bar> \<le> 2 ^ 53" by simp
  have "(2::rat) ^ 53 \<le> maxDouble" by (simp add: maxDouble_def)
  with b have "\<bar>of_int n :: rat\<bar> \<le> maxDouble" by (rule order_trans)
  then show ?thesis
    by (simp add: num_def nearest_of_int[OF assms] abs_le_iff min_def max_def)
qed

text \<open>
  The quotient of two integers below \<open>2 ^ 53\<close> is rounded to a double with the same
  floor and the same ceiling.
\<close>

lemma nearest_div_int:
  assumes h: "0 < h" "h \<le> 2 ^ 53" and a: "\<bar>a\<bar> < 2 ^ 53"
  shows "\<lfloor>nearest (of_int a / of_int h)\<rfloor> = a div h"
    and "\<lceil>nearest (of_int a / of_int h)\<rceil> = - ((- a) div h)"
    and "\<bar>nearest (of_int a / of_int h)\<bar> < 2 ^ 1024"
proof -
  define x :: rat where "x = of_int a / of_int h"
  define k where "k = a div h"
  have "\<lfloor>nearest x\<rfloor> = k \<and> \<lceil>nearest x\<rceil> = - ((- a) div h) \<and> \<bar>nearest x\<bar> < 2 ^ 1024"
  proof (cases "h dvd a")
    case True
    then have ak: "a = h * k" by (simp add: k_def)
    have xk: "x = of_int k" using h(1) by (simp add: x_def ak)
    have "\<bar>k\<bar> \<le> \<bar>a\<bar>"
    proof -
      have "\<bar>a\<bar> = h * \<bar>k\<bar>" using h(1) by (simp add: ak abs_mult)
      moreover have "1 * \<bar>k\<bar> \<le> h * \<bar>k\<bar>" using h(1) by (intro mult_right_mono) simp_all
      ultimately show ?thesis by simp
    qed
    then have kb: "\<bar>k\<bar> \<le> 2 ^ 53" using a by simp
    have n: "nearest x = of_int k" unfolding xk by (rule nearest_of_int[OF kb])
    have c: "- ((- a) div h) = k" using True h(1) by (simp add: k_def dvd_neg_div)
    have "(of_int \<bar>k\<bar> :: rat) \<le> of_int (2 ^ 53)" using kb by (simp only: of_int_le_iff)
    then have "\<bar>of_int k :: rat\<bar> \<le> 2 ^ 53" by simp
    moreover have "(2::rat) ^ 53 < 2 ^ 1024" by simp
    ultimately have "\<bar>of_int k :: rat\<bar> < 2 ^ 1024" by (rule le_less_trans)
    then show ?thesis by (simp add: n c)
  next
    case False
    define r where "r = a mod h"
    have "0 \<le> r" "r \<noteq> 0" using False h(1) by (simp_all add: r_def mod_eq_0_iff_dvd)
    then have r0: "0 < r" by simp
    have "r < h" using h(1) unfolding r_def by (rule pos_mod_bound)
    note r = r0 this
    have ad: "a = h * k + r" by (simp add: k_def r_def)
    have hp: "(0::rat) < of_int h" using h(1) by simp
    have xk: "x = of_int k + of_int r / of_int h"
      using hp by (simp add: x_def ad field_simps)
    have r1: "(1::rat) \<le> of_int r"
    proof -
      have "1 \<le> r" using r(1) by simp
      then show ?thesis by (simp only: of_int_1_le_iff)
    qed
    have r2: "(of_int r :: rat) + 1 \<le> of_int h"
    proof -
      have "r + 1 \<le> h" using r(2) by simp
      then have "(of_int (r + 1) :: rat) \<le> of_int h" by (simp only: of_int_le_iff)
      then show ?thesis by simp
    qed
    have lo: "of_int k + 1 / of_int h \<le> x"
      unfolding xk using r1 hp by (simp add: divide_right_mono)
    have hi: "x \<le> of_int k + 1 - 1 / of_int h"
    proof -
      have "of_int r / of_int h \<le> (of_int h - 1) / (of_int h :: rat)"
        using r2 hp by (intro divide_right_mono) simp_all
      also have "\<dots> = 1 - 1 / of_int h" using hp by (simp add: field_simps)
      finally show ?thesis unfolding xk by simp
    qed
    have a0: "a \<noteq> 0" using False by auto
    have ax: "\<bar>x\<bar> = of_int \<bar>a\<bar> / of_int h" using hp by (simp add: x_def)
    have a1: "(1::rat) \<le> of_int \<bar>a\<bar>"
    proof -
      have "1 \<le> \<bar>a\<bar>" using a0 by simp
      then show ?thesis by (simp only: of_int_1_le_iff)
    qed
    have hb: "(of_int h :: rat) \<le> 2 ^ 53"
    proof -
      have "(of_int h :: rat) \<le> of_int (2 ^ 53)" using h(2) by (simp only: of_int_le_iff)
      then show ?thesis by simp
    qed
    have ab: "(of_int \<bar>a\<bar> :: rat) < 2 ^ 53"
    proof -
      have "(of_int \<bar>a\<bar> :: rat) < of_int (2 ^ 53)" using a by (simp only: of_int_less_iff)
      then show ?thesis by simp
    qed
    have xl: "1 / of_int h \<le> \<bar>x\<bar>"
      unfolding ax using a1 hp by (simp add: divide_right_mono)
    have "(1::rat) / 2 ^ 53 \<le> 1 / of_int h" using hb hp by (simp add: frac_le)
    moreover have "(1::rat) / 2 ^ 1022 \<le> 1 / 2 ^ 53" by simp
    ultimately have "1 / 2 ^ 1022 \<le> \<bar>x\<bar>" using xl by linarith
    then have "\<bar>nearest x - x\<bar> \<le> \<bar>x\<bar> / 2 ^ 53" by (rule nearest_error)
    also have "\<dots> = (of_int \<bar>a\<bar> / 2 ^ 53) / of_int h" by (simp add: ax)
    also have "\<dots> < 1 / of_int h"
      using ab hp by (intro divide_strict_right_mono) simp_all
    finally have err: "\<bar>nearest x - x\<bar> < 1 / of_int h" .
    have n1: "of_int k < nearest x" using err lo by linarith
    have n2: "nearest x < of_int k + 1" using err hi by linarith
    have f: "\<lfloor>nearest x\<rfloor> = k" using n1 n2 by (intro floor_unique) simp_all
    have c: "\<lceil>nearest x\<rceil> = k + 1" using n1 n2 by (intro ceiling_unique) simp_all
    have m: "- ((- a) div h) = k + 1"
      using False h(1) by (simp add: k_def zdiv_zminus1_eq_if mod_eq_0_iff_dvd)
    have "\<bar>x\<bar> < 2 ^ 53"
    proof -
      have "of_int \<bar>a\<bar> / of_int h \<le> (of_int \<bar>a\<bar> :: rat) / 1"
        using h(1) by (intro divide_left_mono) simp_all
      then show ?thesis using ab by (simp add: ax)
    qed
    moreover have "1 / (of_int h :: rat) \<le> 1" using h(1) hp by simp
    ultimately have "\<bar>nearest x\<bar> < 2 ^ 53 + 1" using err by linarith
    moreover have "(2::rat) ^ 53 + 1 < 2 ^ 1024" by simp
    ultimately have "\<bar>nearest x\<bar> < 2 ^ 1024" by (rule less_trans)
    then show ?thesis by (simp add: f c m)
  qed
  then show "\<lfloor>nearest (of_int a / of_int h)\<rfloor> = a div h"
    and "\<lceil>nearest (of_int a / of_int h)\<rceil> = - ((- a) div h)"
    and "\<bar>nearest (of_int a / of_int h)\<bar> < 2 ^ 1024"
    by (simp_all add: x_def k_def)
qed

lemma jsdiv_int:
  assumes h: "0 < h" "h \<le> 2 ^ 53" and a: "\<bar>a\<bar> < 2 ^ 53"
  shows "jsfloor (jsdiv (Fin (of_int a)) (Fin (of_int h))) = Fin (of_int (a div h))"
    and "jsceil (jsdiv (Fin (of_int a)) (Fin (of_int h))) = Fin (of_int (- ((- a) div h)))"
proof -
  have "fl (of_int a / of_int h) = Fin (nearest (of_int a / of_int h))"
    using nearest_div_int(3)[OF h a] by (simp add: fl_def abs_less_iff not_le)
  then have d: "jsdiv (Fin (of_int a)) (Fin (of_int h)) = Fin (nearest (of_int a / of_int h))"
    using h(1) by simp
  show "jsfloor (jsdiv (Fin (of_int a)) (Fin (of_int h))) = Fin (of_int (a div h))"
    unfolding d by (simp add: nearest_div_int(1)[OF h a])
  show "jsceil (jsdiv (Fin (of_int a)) (Fin (of_int h))) = Fin (of_int (- ((- a) div h)))"
    unfolding d by (simp only: jsceil.simps nearest_div_int(2)[OF h a])
qed

subsection \<open>The visible range and the total height\<close>

lemma calculateVisibleRange_fields:
  "itemHeight (calculateVisibleRange s) = itemHeight s"
  "bufferSize (calculateVisibleRange s) = bufferSize s"
  "data (calculateVisibleRange s) = data s"
  "scrollTop (calculateVisibleRange s) = scrollTop s"
  "containerHeight (calculateVisibleRange s) = containerHeight s"
  "totalHeight (calculateVisibleRange s) = totalHeight s"
  by (simp_all add: calculateVisibleRange_def)

lemma updateVisibleItems_fields:
  "itemHeight (updateVisibleItems s) = itemHeight s"
  "bufferSize (updateVisibleItems s) = bufferSize s"
  "data (updateVisibleItems s) = data s"
  "scrollTop (updateVisibleItems s) = scrollTop s"
  "containerHeight (updateVisibleItems s) = containerHeight s"
  "totalHeight (updateVisibleItems s) = totalHeight s"
  "startIndex (updateVisibleItems s) = startIndex (calculateVisibleRange s)"
  "endIndex (updateVisibleItems s) = endIndex (calculateVisibleRange s)"
  by (simp_all add: updateVisibleItems_def Let_def calculateVisibleRange_fields)

lemma calculateVisibleRange_window:
  "startIndex (calculateVisibleRange s) = jsmax (Fin 0) (windowLow s)"
  "endIndex (calculateVisibleRange s) = jsmin (Fin (of_nat (length (data s)) - 1)) (windowHigh s)"
  by (simp_all add: calculateVisibleRange_def windowLow_def windowHigh_def)

lemma handleScroll_far:
  "scrolledFar s newScrollTop \<Longrightarrow>
   handleScroll s newScrollTop = updateVisibleItems (s\<lparr>scrollTop := newScrollTop\<rparr>)"
  by (simp add: handleScroll_def scrolledFar_def)

lemma handleScroll_near: "\<not> scrolledFar s newScrollTop \<Longrightarrow> handleScroll s newScrollTop = s"
  by (simp add: handleScroll_def scrolledFar_def)

lemma abs_floor_le:
  fixes x :: rat
  assumes "\<bar>x\<bar> \<le> of_int n"
  shows "\<bar>\<lfloor>x\<rfloor>\<bar> \<le> n" and "\<bar>\<lceil>x\<rceil>\<bar> \<le> n"
proof -
  have l: "of_int (- n) \<le> x" and u: "x \<le> of_int n" using assms by (simp_all add: abs_le_iff)
  have "\<lfloor>of_int (- n) :: rat\<rfloor> \<le> \<lfloor>x\<rfloor>" using l by (rule floor_mono)
  then have f1: "- n \<le> \<lfloor>x\<rfloor>" by (simp only: floor_of_int)
  have "\<lfloor>x\<rfloor> \<le> \<lfloor>of_int n :: rat\<rfloor>" using u by (rule floor_mono)
  then have f2: "\<lfloor>x\<rfloor> \<le> n" by (simp only: floor_of_int)
  from f1 f2 show "\<bar>\<lfloor>x\<rfloor>\<bar> \<le> n" by simp
  have "\<lceil>of_int (- n) :: rat\<rceil> \<le> \<lceil>x\<rceil>" using l by (rule ceiling_mono)
  then have c1: "- n \<le> \<lceil>x\<rceil>" by (simp only: ceiling_of_int)
  have "\<lceil>x\<rceil> \<le> \<lceil>of_int n :: rat\<rceil>" using u by (rule ceiling_mono)
  then have c2: "\<lceil>x\<rceil> \<le> n" by (simp only: ceiling_of_int)
  from c1 c2 show "\<bar>\<lceil>x\<rceil>\<bar> \<le> n" by simp
qed

text \<open>
  For whole-numbered pixel values below \<open>2 ^ 52\<close> the window computed in double
  arithmetic is the window of exact arithmetic.
\<close>

lemma range_whole_pixels:
  assumes i: "scrollTop s \<in> \<int>" "containerHeight s \<in> \<int>" "itemHeight s \<in> \<int>"
    and h: "0 < itemHeight s" "itemHeight s < 2 ^ 52"
    and t: "\<bar>scrollTop s\<bar> < 2 ^ 52" "\<bar>scrollTop s + containerHeight s\<bar> < 2 ^ 52"
    and b: "\<bar>bufferSize s\<bar> < 2 ^ 52"
  shows "windowLow s = Fin (of_int (\<lfloor>scrollTop s / itemHeight s\<rfloor> - bufferSize s))"
    and "windowHigh s = Fin (of_int (\<lceil>(scrollTop s + containerHeight s) / itemHeight s\<rceil> + bufferSize s))"
proof -
  from i obtain a c k where ac: "scrollTop s = of_int a" "containerHeight s = of_int c"
    "itemHeight s = of_int k"
    by (auto elim!: Ints_cases)
  have k: "0 < k" "k < 2 ^ 52" using h unfolding ac by simp_all
  have "(of_int \<bar>a\<bar> :: rat) < 2 ^ 52" using t(1) unfolding ac by simp
  then have a: "\<bar>a\<bar> < 2 ^ 52" by (simp only: of_int_less_numeral_power_cancel_iff)
  have "(of_int \<bar>a + c\<bar> :: rat) < 2 ^ 52" using t(2) unfolding ac by simp
  then have s: "\<bar>a + c\<bar> < 2 ^ 52" by (simp only: of_int_less_numeral_power_cancel_iff)
  have k53: "k \<le> 2 ^ 53" "\<bar>k\<bar> \<le> 2 ^ 53" using k by simp_all
  have a53: "\<bar>a\<bar> < 2 ^ 53" "\<bar>a\<bar> \<le> 2 ^ 53" using a by simp_all
  have s53: "\<bar>a + c\<bar> < 2 ^ 53" "\<bar>a + c\<bar> \<le> 2 ^ 53" using s by simp_all
  have b53: "\<bar>bufferSize s\<bar> \<le> 2 ^ 53" using b by simp
  have c53: "\<bar>c\<bar> \<le> 2 ^ 53" using a s by simp
  define f where "f = a div k"
  define g where "g = - ((- (a + c)) div k)"
  have ff: "\<lfloor>scrollTop s / itemHeight s\<rfloor> = f"
    unfolding ac f_def by (rule floor_divide_of_int_eq)
  have gg: "\<lceil>(scrollTop s + containerHeight s) / itemHeight s\<rceil> = g"
  proof -
    have "- ((of_int a + of_int c) / of_int k) = (of_int (- (a + c)) / of_int k :: rat)"
      by (simp only: of_int_minus of_int_add minus_divide_left)
    then have "\<lfloor>- ((of_int a + of_int c) / of_int k) :: rat\<rfloor> = (- (a + c)) div k"
      by (simp only: floor_divide_of_int_eq)
    then show ?thesis unfolding ac g_def ceiling_def by (simp only:)
  qed
  have "\<bar>scrollTop s / itemHeight s\<bar> \<le> of_int \<bar>a\<bar>"
  proof -
    have "\<bar>of_int a / of_int k :: rat\<bar> = of_int \<bar>a\<bar> / of_int k" using k(1) by simp
    also have "\<dots> \<le> of_int \<bar>a\<bar> / 1" using k(1) by (intro divide_left_mono) simp_all
    finally show ?thesis by (simp add: ac)
  qed
  then have fb: "\<bar>f\<bar> \<le> \<bar>a\<bar>" unfolding ff[symmetric] by (rule abs_floor_le)
  have "\<bar>(scrollTop s + containerHeight s) / itemHeight s\<bar> \<le> of_int \<bar>a + c\<bar>"
  proof -
    have "\<bar>of_int (a + c) / of_int k :: rat\<bar> = of_int \<bar>a + c\<bar> / of_int k" using k(1) by simp
    also have "\<dots> \<le> of_int \<bar>a + c\<bar> / 1" using k(1) by (intro divide_left_mono) simp_all
    finally show ?thesis by (simp add: ac)
  qed
  then have gb: "\<bar>g\<bar> \<le> \<bar>a + c\<bar>" unfolding gg[symmetric] by (rule abs_floor_le)
  have lo53: "\<bar>f - bufferSize s\<bar> \<le> 2 ^ 53" using fb a b by simp
  have hi53: "\<bar>g + bufferSize s\<bar> \<le> 2 ^ 53" using gb s b by simp
  have q1: "jsfloor (jsdiv (num (scrollTop s)) (num (itemHeight s))) = Fin (of_int f)"
    unfolding ac f_def num_of_int[OF a53(2)] num_of_int[OF k53(2)]
    by (rule jsdiv_int(1)[OF k(1) k53(1) a53(1)])
  have sum: "jsadd (num (scrollTop s)) (num (containerHeight s)) = Fin (of_int (a + c))"
    unfolding ac num_of_int[OF a53(2)] num_of_int[OF c53]
    using fl_of_int[OF s53(2)] by simp
  have q2: "jsceil (jsdiv (jsadd (num (scrollTop s)) (num (containerHeight s))) (num (itemHeight s)))
              = Fin (of_int g)"
    unfolding sum unfolding ac g_def num_of_int[OF k53(2)]
    by (rule jsdiv_int(2)[OF k(1) k53(1) s53(1)])
  show "windowLow s = Fin (of_int (\<lfloor>scrollTop s / itemHeight s\<rfloor> - bufferSize s))"
    unfolding windowLow_def q1 ff num_of_int[OF b53]
    using fl_of_int[OF lo53] by (simp add: jssub_def)
  show "windowHigh s = Fin (of_int (\<lceil>(scrollTop s + containerHeight s) / itemHeight s\<rceil> + bufferSize s))"
    unfolding windowHigh_def q2 gg num_of_int[OF b53]
    using fl_of_int[OF hi53] by simp
qed

lemma jsmax_Fin: "jsmax (Fin x) (Fin (of_int y)) = Fin (max x (of_int y))"
  by (simp add: max_def)

lemma jsmin_Fin: "jsmin (Fin x) (Fin y) = Fin (min x y)"
  by (simp add: min_def)

text \<open>
  Claim C3. \<open>calculateVisibleRange\<close> sets \<open>startIndex\<close> to
  \<open>max(0, floor(scrollTop / itemHeight) - buffer)\<close> and \<open>endIndex\<close> to
  \<open>min(len - 1, ceil((scrollTop + containerHeight) / itemHeight) + buffer)\<close>, each
  operation being the one of JavaScript Numbers; a scroll event whose offset differs from
  the stored one by more than half an item height stores the new offset and recomputes
  both indices from it. For a positive item height and whole-numbered pixel values below
  \<open>2 ^ 52\<close> the two indices are those of the formulas in exact arithmetic.
\<close>

theorem visible_range_formula:
  "startIndex (calculateVisibleRange s)
     = jsmax (Fin 0)
         (jssub (jsfloor (jsdiv (num (scrollTop s)) (num (itemHeight s))))
                (num (of_int (bufferSize s))))
   \<and> endIndex (calculateVisibleRange s)
       = jsmin (Fin (of_nat (length (data s)) - 1))
           (jsadd (jsceil (jsdiv (jsadd (num (scrollTop s)) (num (containerHeight s)))
                                 (num (itemHeight s))))
                  (num (of_int (bufferSize s))))
   \<and> (scrolledFar s newScrollTop \<longrightarrow>
         scrollTop (handleScroll s newScrollTop) = newScrollTop
       \<and> startIndex (handleScroll s newScrollTop)
           = jsmax (Fin 0)
               (jssub (jsfloor (jsdiv (num newScrollTop) (num (itemHeight s))))
                      (num (of_int (bufferSize s))))
       \<and> endIndex (handleScroll s newScrollTop)
           = jsmin (Fin (of_nat (length (data s)) - 1))
               (jsadd (jsceil (jsdiv (jsadd (num newScrollTop) (num (containerHeight s)))
                                     (num (itemHeight s))))
                      (num (of_int (bufferSize s)))))
   \<and> (scrollTop s \<in> \<int> \<and> containerHeight s \<in> \<int> \<and> itemHeight s \<in> \<int>
       \<and> 0 < itemHeight s \<and> itemHeight s < 2 ^ 52
       \<and> \<bar>scrollTop s\<bar> < 2 ^ 52 \<and> \<bar>scrollTop s + containerHeight s\<bar> < 2 ^ 52
       \<and> \<bar>bufferSize s\<bar> < 2 ^ 52 \<longrightarrow>
         startIndex (calculateVisibleRange s)
           = Fin (of_int (max 0 (\<lfloor>scrollTop s / itemHeight s\<rfloor> - bufferSize s)))
       \<and> endIndex (calculateVisibleRange s)
           = Fin (of_int (min (int (length (data s)) - 1)
                              (\<lceil>(scrollTop s + containerHeight s) / itemHeight s\<rceil> + bufferSize s))))"
proof -
  have 1: "startIndex (calculateVisibleRange s)
     = jsmax (Fin 0)
         (jssub (jsfloor (jsdiv (num (scrollTop s)) (num (itemHeight s))))
                (num (of_int (bufferSize s))))"
    by (simp add: calculateVisibleRange_def)
  have 2: "endIndex (calculateVisibleRange s)
       = jsmin (Fin (of_nat (length (data s)) - 1))
           (jsadd (jsceil (jsdiv (jsadd (num (scrollTop s)) (num (containerHeight s)))
                                 (num (itemHeight s))))
                  (num (of_int (bufferSize s))))"
    by (simp add: calculateVisibleRange_def)
  have 3: "scrollTop (handleScroll s newScrollTop) = newScrollTop
       \<and> startIndex (handleScroll s newScrollTop)
           = jsmax (Fin 0)
               (jssub (jsfloor (jsdiv (num newScrollTop) (num (itemHeight s))))
                      (num (of_int (bufferSize s))))
       \<and> endIndex (handleScroll s newScrollTop)
           = jsmin (Fin (of_nat (length (data s)) - 1))
               (jsadd (jsceil (jsdiv (jsadd (num newScrollTop) (num (containerHeight s)))
                                     (num (itemHeight s))))
                      (num (of_int (bufferSize s))))"
    if "scrolledFar s newScrollTop"
    by (simp add: handleScroll_far[OF that] updateVisibleItems_fields calculateVisibleRange_def)
  have 4: "startIndex (calculateVisibleRange s)
           = Fin (of_int (max 0 (\<lfloor>scrollTop s / itemHeight s\<rfloor> - bufferSize s)))
       \<and> endIndex (calculateVisibleRange s)
           = Fin (of_int (min (int (length (data s)) - 1)
                              (\<lceil>(scrollTop s + containerHeight s) / itemHeight s\<rceil> + bufferSize s)))"
    if w: "scrollTop s \<in> \<int> \<and> containerHeight s \<in> \<int> \<and> itemHeight s \<in> \<int>
       \<and> 0 < itemHeight s \<and> itemHeight s < 2 ^ 52
       \<and> \<bar>scrollTop s\<bar> < 2 ^ 52 \<and> \<bar>scrollTop s + containerHeight s\<bar> < 2 ^ 52
       \<and> \<bar>bufferSize s\<bar> < 2 ^ 52"
  proof -
    have lo: "windowLow s = Fin (of_int (\<lfloor>scrollTop s / itemHeight s\<rfloor> - bufferSize s))"
      and hi: "windowHigh s
                 = Fin (of_int (\<lceil>(scrollTop s + containerHeight s) / itemHeight s\<rceil> + bufferSize s))"
      using w by (simp_all add: range_whole_pixels)
    show ?thesis
      unfolding calculateVisibleRange_window lo hi
      by (simp add: max_def min_def)
  qed
  from 1 2 3 4 show ?thesis by blast
qed

lemma thousand_records_fields:
  "itemHeight thousand_records = 60" "containerHeight thousand_records = 600"
  "bufferSize thousand_records = 5" "length (data thousand_records) = 1000"
  "scrollTop thousand_records = 0"
  by (simp_all add: thousand_records_def setData_def new_VirtualScrollingManager_def updateVisibleItems_fields)

lemma scrolled_1200:
  "scrolledFar thousand_records 1200"
  "itemHeight (handleScroll thousand_records 1200) = 60"
  "containerHeight (handleScroll thousand_records 1200) = 600"
  "bufferSize (handleScroll thousand_records 1200) = 5"
  "length (data (handleScroll thousand_records 1200)) = 1000"
  "scrollTop (handleScroll thousand_records 1200) = 1200"
proof -
  show f: "scrolledFar thousand_records 1200"
    by (simp add: scrolledFar_def thousand_records_fields jssub_def fl_eval)
  show "itemHeight (handleScroll thousand_records 1200) = 60"
    "containerHeight (handleScroll thousand_records 1200) = 600"
    "bufferSize (handleScroll thousand_records 1200) = 5"
    "length (data (handleScroll thousand_records 1200)) = 1000"
    "scrollTop (handleScroll thousand_records 1200) = 1200"
    by (simp_all add: handleScroll_far[OF f] updateVisibleItems_fields thousand_records_fields)
qed

lemma tall_rows_fields:
  "itemHeight tall_rows = 486 / 10" "containerHeight tall_rows = 600"
  "bufferSize tall_rows = 0" "length (data tall_rows) = 1000"
  "scrollTop tall_rows = 0"
  by (simp_all add: tall_rows_def setData_def new_VirtualScrollingManager_def updateVisibleItems_fields)

lemma tall_rows_far: "scrolledFar tall_rows 486"
  by (simp add: scrolledFar_def tall_rows_fields jssub_def fl_eval)

text \<open>
  The scenario of the specification: 1000 records, item height 60, container height 600,
  buffer 5, scrolled to offset 1200; the window is 15 to 35, in double arithmetic and by
  the exact formulas. With rows of height 48.6 and the offset 486 the quotient of the two
  doubles rounds to 10, which is the start index.
\<close>

theorem visible_range_formula_witness:
  "scrolledFar thousand_records 1200
   \<and> length (data thousand_records) = 1000
   \<and> itemHeight thousand_records = 60 \<and> containerHeight thousand_records = 600
   \<and> bufferSize thousand_records = 5
   \<and> scrollTop (handleScroll thousand_records 1200) = 1200
   \<and> startIndex (handleScroll thousand_records 1200) = Fin 15
   \<and> endIndex (handleScroll thousand_records 1200) = Fin 35
   \<and> startIndex (calculateVisibleRange (handleScroll thousand_records 1200))
       = Fin (of_int (max 0 (\<lfloor>1200 / 60 :: rat\<rfloor> - 5)))
   \<and> endIndex (calculateVisibleRange (handleScroll thousand_records 1200))
       = Fin (of_int (min (1000 - 1) (\<lceil>(1200 + 600) / 60 :: rat\<rceil> + 5)))
   \<and> scrolledFar tall_rows 486
   \<and> startIndex (handleScroll tall_rows 486) = Fin 10"
proof -
  note f = thousand_records_fields
  note g = scrolled_1200
  have a: "startIndex (handleScroll thousand_records 1200) = Fin 15
         \<and> endIndex (handleScroll thousand_records 1200) = Fin 35"
    using visible_range_formula[of thousand_records 1200] g(1)
    by (simp add: f jssub_def fl_eval)
  have w: "scrollTop (handleScroll thousand_records 1200) \<in> \<int>
       \<and> containerHeight (handleScroll thousand_records 1200) \<in> \<int>
       \<and> itemHeight (handleScroll thousand_records 1200) \<in> \<int>
       \<and> 0 < itemHeight (handleScroll thousand_records 1200)
       \<and> itemHeight (handleScroll thousand_records 1200) < 2 ^ 52
       \<and> \<bar>scrollTop (handleScroll thousand_records 1200)\<bar> < 2 ^ 52
       \<and> \<bar>scrollTop (handleScroll thousand_records 1200)
            + containerHeight (handleScroll thousand_records 1200)\<bar> < 2 ^ 52
       \<and> \<bar>bufferSize (handleScroll thousand_records 1200)\<bar> < 2 ^ 52"
    by (simp add: g)
  have b: "startIndex (calculateVisibleRange (handleScroll thousand_records 1200))
       = Fin (of_int (max 0 (\<lfloor>1200 / 60 :: rat\<rfloor> - 5)))
     \<and> endIndex (calculateVisibleRange (handleScroll thousand_records 1200))
       = Fin (of_int (min (1000 - 1) (\<lceil>(1200 + 600) / 60 :: rat\<rceil> + 5)))"
  proof -
    let ?s = "handleScroll thousand_records 1200"
    have "startIndex (calculateVisibleRange ?s)
           = Fin (of_int (max 0 (\<lfloor>scrollTop ?s / itemHeight ?s\<rfloor> - bufferSize ?s)))
       \<and> endIndex (calculateVisibleRange ?s)
           = Fin (of_int (min (int (length (data ?s)) - 1)
                              (\<lceil>(scrollTop ?s + containerHeight ?s) / itemHeight ?s\<rceil> + bufferSize ?s)))"
      using visible_range_formula[of ?s 0] w by blast
    then show ?thesis by (simp only: g) simp
  qed
  have c: "startIndex (handleScroll tall_rows 486) = Fin 10"
    using visible_range_formula[of tall_rows 486] tall_rows_far
    by (simp add: tall_rows_fields jssub_def fl_eval)
  from a b c g(1,6) f tall_rows_far show ?thesis by simp
qed

lemma height_setData: "height_invariant (setData s d)"
  by (simp add: height_invariant_def setData_def updateVisibleItems_fields)

lemma height_addItem: "height_invariant (addItem s item index)"
  by (simp add: height_invariant_def addItem_def Let_def updateVisibleItems_fields)

lemma height_removeItem_in_range:
  "0 \<le> index \<Longrightarrow> index < int (length (data s)) \<Longrightarrow> height_invariant (removeItem s index)"
  by (simp add: height_invariant_def removeItem_def Let_def updateVisibleItems_fields)

lemma height_removeItem: "height_invariant s \<Longrightarrow> height_invariant (removeItem s index)"
  by (simp add: height_invariant_def removeItem_def Let_def updateVisibleItems_fields)

lemma fl_0: "fl 0 = Fin 0"
  by (simp add: fl_def nearest_def)

lemma jsmul_0_num: "jsmul (Fin 0) (num x) = Fin 0"
  by (simp add: num_def fl_0)

lemma height_apply_op: "height_invariant s \<Longrightarrow> height_invariant (apply_op s x)"
  by (cases x)
     (simp_all add: height_setData height_addItem height_removeItem,
      simp_all add: height_invariant_def handleScroll_def handleResize_def updateContainerHeight_def
        updateItem_def clear_def setItemHeight_def Let_def updateVisibleItems_fields jsmul_0_num)

lemma height_run_ops: "height_invariant s \<Longrightarrow> height_invariant (run_ops s ops)"
  unfolding run_ops_def by (induction ops arbitrary: s) (simp_all add: height_apply_op)

lemma height_new: "height_invariant (new_VirtualScrollingManager h b c)"
  by (simp add: height_invariant_def new_VirtualScrollingManager_def jsmul_0_num)

lemma length_addItem: "length (data (addItem s item index)) = length (data s) + 1"
  by (simp add: addItem_def Let_def updateVisibleItems_fields spliceStart_def)

lemma length_removeItem:
  "0 \<le> index \<Longrightarrow> index < int (length (data s)) \<Longrightarrow> length (data (removeItem s index)) + 1 = length (data s)"
  by (auto simp: removeItem_def Let_def updateVisibleItems_fields)

text \<open>
  For a whole-numbered item height the product is exact as long as it does not exceed
  \<open>2 ^ 53\<close>.
\<close>

lemma jsmul_whole:
  assumes "x \<in> \<int>" "\<bar>x\<bar> * of_nat n \<le> 2 ^ 53"
  shows "jsmul (Fin (of_nat n)) (num x) = Fin (of_nat n * x)"
proof (cases "n = 0")
  case True
  then show ?thesis by (simp add: jsmul_0_num)
next
  case False
  from assms(1) obtain k where k: "x = of_int k" by (auto elim: Ints_cases)
  have "(of_int (\<bar>k\<bar> * int n) :: rat) \<le> 2 ^ 53" using assms(2) by (simp add: k)
  then have p: "\<bar>k\<bar> * int n \<le> 2 ^ 53" by (simp only: of_int_le_numeral_power_cancel_iff)
  have "\<bar>k\<bar> * 1 \<le> \<bar>k\<bar> * int n" using False by (intro mult_left_mono) simp_all
  then have kb: "\<bar>k\<bar> \<le> 2 ^ 53" using p by simp
  have pb: "\<bar>int n * k\<bar> \<le> 2 ^ 53" using p by (simp add: abs_mult mult.commute)
  have "jsmul (Fin (of_nat n)) (num x) = fl (of_int (int n * k))"
    by (simp add: k num_of_int[OF kb])
  also have "\<dots> = Fin (of_int (int n * k))" by (rule fl_of_int[OF pb])
  finally show ?thesis by (simp add: k)
qed

text \<open>
  Claim C4. After \<open>setData\<close> and after \<open>addItem\<close> the total height is the length of the
  current list times the item height, and so it is after a \<open>removeItem\<close> that removes an
  item; \<open>setData\<close> with the empty list gives total height 0. A \<open>removeItem\<close> whose index
  is out of range changes nothing, so the equation holds after it whenever it held
  before, and it holds after every run of operations from the constructed state. The
  product is the one of JavaScript Numbers; for a whole-numbered item height it is the
  exact product as long as that does not exceed \<open>2 ^ 53\<close>. (The list is the renderer's
  own: a caller that keeps the array passed to \<open>setData\<close> and changes it behind the
  renderer is outside this model.)
\<close>

theorem total_height_invariant:
  "totalHeight (setData s d)
     = jsmul (Fin (of_nat (length (data (setData s d))))) (num (itemHeight (setData s d)))
   \<and> data (setData s d) = d
   \<and> totalHeight (setData s []) = Fin 0
   \<and> totalHeight (addItem s item index)
       = jsmul (Fin (of_nat (length (data (addItem s item index)))))
               (num (itemHeight (addItem s item index)))
   \<and> length (data (addItem s item index)) = length (data s) + 1
   \<and> (0 \<le> index \<and> index < int (length (data s)) \<longrightarrow>
         totalHeight (removeItem s index)
           = jsmul (Fin (of_nat (length (data (removeItem s index)))))
                   (num (itemHeight (removeItem s index)))
       \<and> length (data (removeItem s index)) + 1 = length (data s))
   \<and> (height_invariant s \<longrightarrow> height_invariant (removeItem s index))
   \<and> height_invariant (run_ops (new_VirtualScrollingManager h b c) ops)
   \<and> (itemHeight s \<in> \<int> \<and> \<bar>itemHeight s\<bar> * of_nat (length d) \<le> 2 ^ 53 \<longrightarrow>
         totalHeight (setData s d) = Fin (of_nat (length d) * itemHeight s))"
proof -
  have 1: "totalHeight (setData s d)
     = jsmul (Fin (of_nat (length (data (setData s d))))) (num (itemHeight (setData s d)))"
    using height_setData[of s d] by (simp add: height_invariant_def)
  have 2: "data (setData s d) = d"
    by (simp add: setData_def updateVisibleItems_fields)
  have 3: "totalHeight (setData s []) = Fin 0"
    by (simp add: setData_def updateVisibleItems_fields jsmul_0_num)
  have 4: "totalHeight (addItem s item index)
       = jsmul (Fin (of_nat (length (data (addItem s item index)))))
               (num (itemHeight (addItem s item index)))"
    using height_addItem[of s item index] by (simp add: height_invariant_def)
  have 5: "length (data (addItem s item index)) = length (data s) + 1"
    by (rule length_addItem)
  have 6: "0 \<le> index \<and> index < int (length (data s)) \<longrightarrow>
         totalHeight (removeItem s index)
           = jsmul (Fin (of_nat (length (data (removeItem s index)))))
                   (num (itemHeight (removeItem s index)))
       \<and> length (data (removeItem s index)) + 1 = length (data s)"
    using height_removeItem_in_range[of index s] length_removeItem[of index s]
    by (simp add: height_invariant_def)
  have 7: "height_invariant s \<longrightarrow> height_invariant (removeItem s index)"
    by (simp add: height_removeItem)
  have 8: "height_invariant (run_ops (new_VirtualScrollingManager h b c) ops)"
    by (rule height_run_ops[OF height_new])
  have 9: "itemHeight s \<in> \<int> \<and> \<bar>itemHeight s\<bar> * of_nat (length d) \<le> 2 ^ 53 \<longrightarrow>
         totalHeight (setData s d) = Fin (of_nat (length d) * itemHeight s)"
    by (simp add: setData_def updateVisibleItems_fields jsmul_whole)
  from 1 2 3 4 5 6 7 8 9 show ?thesis by blast
qed

text \<open>
  1000 rows of height 60 have total height 60000, and 59940 after a row is removed;
  removing at the index 1000, which is out of range, keeps the equation.
\<close>

theorem total_height_invariant_witness:
  "(0::int) \<le> 3 \<and> 3 < int (length (data thousand_records))
   \<and> height_invariant thousand_records
   \<and> itemHeight thousand_records \<in> \<int>
   \<and> \<bar>itemHeight thousand_records\<bar> * of_nat (length [0..<10]) \<le> 2 ^ 53
   \<and> totalHeight (setData thousand_records [0..<10]) = Fin 600
   \<and> totalHeight thousand_records = Fin 60000
   \<and> totalHeight (removeItem thousand_records 3) = Fin 59940
   \<and> length (data (removeItem thousand_records 3)) = 999
   \<and> height_invariant (removeItem thousand_records 1000)"
proof -
  note f = thousand_records_fields
  have t: "totalHeight thousand_records = Fin 60000"
    by (simp add: thousand_records_def setData_def new_VirtualScrollingManager_def
        updateVisibleItems_fields fl_eval)
  have g: "itemHeight (removeItem thousand_records 3) = 60"
    by (simp add: removeItem_def Let_def updateVisibleItems_fields f)
  have h: "height_invariant thousand_records"
    by (simp add: height_invariant_def f t fl_eval)
  have i3: "(0::int) \<le> 3 \<and> 3 < int (length (data thousand_records))" by (simp add: f)
  have w: "itemHeight thousand_records \<in> \<int>
         \<and> \<bar>itemHeight thousand_records\<bar> * of_nat (length [0..<10]) \<le> 2 ^ 53"
    by (simp add: f)
  note T = total_height_invariant[of thousand_records "[0..<10]" 7 3 60 5 600 "[]"]
  from T i3 have r: "totalHeight (removeItem thousand_records 3)
             = jsmul (Fin (of_nat (length (data (removeItem thousand_records 3)))))
                     (num (itemHeight (removeItem thousand_records 3)))
         \<and> length (data (removeItem thousand_records 3)) + 1 = length (data thousand_records)"
    by blast
  then have l: "length (data (removeItem thousand_records 3)) = 999" by (simp add: f)
  have a: "totalHeight (removeItem thousand_records 3) = Fin 59940"
    using r by (simp add: l g fl_eval)
  from T w have "totalHeight (setData thousand_records [0..<10])
                   = Fin (of_nat (length [0..<10]) * itemHeight thousand_records)"
    by blast
  then have d: "totalHeight (setData thousand_records [0..<10]) = Fin 600" by (simp add: f)
  have b: "height_invariant (removeItem thousand_records 1000)"
    using h total_height_invariant[of thousand_records "[]" 7 1000 60 5 600 "[]"]
    by blast
  from a b d h l t w i3 show ?thesis by simp
qed

subsection \<open>Bounds of the visible range\<close>

lemma clamp_never_outside:
  "\<not> jslt (jsmax (Fin 0) lo) (Fin 0)" "\<not> jslt (Fin m) (jsmin (Fin m) hi)"
  by (cases lo; simp) (cases hi; simp)

lemma clamp_ordered_iff:
  "jsle (jsmax (Fin 0) lo) (jsmin (Fin m) hi)
     = (0 \<le> m \<and> jsle lo (Fin m) \<and> jsle (Fin 0) hi \<and> jsle lo hi)"
  by (cases lo; cases hi) auto

lemma clamp_ordered_within:
  assumes "jsle (jsmax (Fin 0) lo) (jsmin (Fin m) hi)"
  shows "jsle (Fin 0) (jsmax (Fin 0) lo)" "jsle (jsmax (Fin 0) lo) (Fin m)"
    "jsle (Fin 0) (jsmin (Fin m) hi)" "jsle (jsmin (Fin m) hi) (Fin m)"
  using assms by (cases lo; cases hi; auto split: if_splits)+

lemma last_index_nonneg: "((0::rat) \<le> of_nat (length d) - 1) = (d \<noteq> [])"
  by (cases d) simp_all

lemma loopIndices_unordered: "\<not> jsle a b \<Longrightarrow> loopIndices a b n = []"
  by (cases a; cases b) (auto simp: loopIndices_def filter_empty_conv)

text \<open>
  Claim C8, amended. After a visible-range computation \<open>startIndex\<close> is never below 0
  and \<open>endIndex\<close> never above \<open>len - 1\<close>. \<open>startIndex \<le> endIndex\<close> holds exactly when
  the list is not empty and the unclamped ends of the window, \<open>windowLow\<close>
  (\<open>floor(scrollTop / itemHeight) - buffer\<close>) and \<open>windowHigh\<close>
  (\<open>ceil((scrollTop + containerHeight) / itemHeight) + buffer\<close>), as computed in double
  arithmetic, satisfy \<open>windowLow \<le> len - 1\<close>, \<open>0 \<le> windowHigh\<close> and
  \<open>windowLow \<le> windowHigh\<close>; then both indices are within \<open>[0, len - 1]\<close>. Otherwise the
  range is empty and nothing is rendered; so it is for the empty list, where \<open>endIndex\<close>
  is not above \<open>-1\<close>.
\<close>

theorem visible_range_bounds:
  "\<not> jslt (startIndex (calculateVisibleRange s)) (Fin 0)
   \<and> \<not> jslt (Fin (of_nat (length (data s)) - 1)) (endIndex (calculateVisibleRange s))
   \<and> jsle (startIndex (calculateVisibleRange s)) (endIndex (calculateVisibleRange s))
       = (data s \<noteq> []
          \<and> jsle (windowLow s) (Fin (of_nat (length (data s)) - 1))
          \<and> jsle (Fin 0) (windowHigh s)
          \<and> jsle (windowLow s) (windowHigh s))
   \<and> (jsle (startIndex (calculateVisibleRange s)) (endIndex (calculateVisibleRange s)) \<longrightarrow>
         jsle (Fin 0) (startIndex (calculateVisibleRange s))
       \<and> jsle (startIndex (calculateVisibleRange s)) (Fin (of_nat (length (data s)) - 1))
       \<and> jsle (Fin 0) (endIndex (calculateVisibleRange s))
       \<and> jsle (endIndex (calculateVisibleRange s)) (Fin (of_nat (length (data s)) - 1)))
   \<and> (\<not> jsle (startIndex (calculateVisibleRange s)) (endIndex (calculateVisibleRange s)) \<longrightarrow>
         rendered (updateVisibleItems s) = [])
   \<and> (data s = [] \<longrightarrow>
         \<not> jsle (startIndex (calculateVisibleRange s)) (endIndex (calculateVisibleRange s))
       \<and> \<not> jslt (Fin (- 1)) (endIndex (calculateVisibleRange s)))"
proof -
  let ?lo = "startIndex (calculateVisibleRange s)"
  let ?hi = "endIndex (calculateVisibleRange s)"
  let ?m = "of_nat (length (data s)) - 1 :: rat"
  note w = calculateVisibleRange_window
  have 1: "\<not> jslt ?lo (Fin 0)" unfolding w by (rule clamp_never_outside)
  have 2: "\<not> jslt (Fin ?m) ?hi" unfolding w by (rule clamp_never_outside)
  have 3: "jsle ?lo ?hi
       = (data s \<noteq> [] \<and> jsle (windowLow s) (Fin ?m) \<and> jsle (Fin 0) (windowHigh s)
          \<and> jsle (windowLow s) (windowHigh s))"
    unfolding w clamp_ordered_iff last_index_nonneg by (rule refl)
  have 4: "jsle (Fin 0) ?lo \<and> jsle ?lo (Fin ?m) \<and> jsle (Fin 0) ?hi \<and> jsle ?hi (Fin ?m)"
    if "jsle ?lo ?hi"
    using that unfolding w by (simp add: clamp_ordered_within)
  have 5: "rendered (updateVisibleItems s) = []" if "\<not> jsle ?lo ?hi"
    using that by (simp add: updateVisibleItems_def Let_def loopIndices_unordered)
  have 6: "\<not> jsle ?lo ?hi \<and> \<not> jslt (Fin (- 1)) ?hi" if "data s = []"
  proof -
    have "\<not> jsle ?lo ?hi" using 3 that by simp
    moreover have "\<not> jslt (Fin (- 1)) ?hi" using 2 that by simp
    ultimately show ?thesis ..
  qed
  from 1 2 3 4 5 6 show ?thesis by blast
qed

lemma shrunk_after_scroll_fields:
  "length (data shrunk_after_scroll) = 10"
  "startIndex shrunk_after_scroll = Fin 495"
  "endIndex shrunk_after_scroll = Fin 9"
  "itemHeight shrunk_after_scroll = 60" "containerHeight shrunk_after_scroll = 600"
  "bufferSize shrunk_after_scroll = 5" "scrollTop shrunk_after_scroll = 30000"
proof -
  note f = thousand_records_fields
  have far: "scrolledFar thousand_records 30000"
    by (simp add: scrolledFar_def f jssub_def fl_eval)
  have g: "itemHeight (handleScroll thousand_records 30000) = 60"
    "containerHeight (handleScroll thousand_records 30000) = 600"
    "bufferSize (handleScroll thousand_records 30000) = 5"
    "scrollTop (handleScroll thousand_records 30000) = 30000"
    by (simp_all add: handleScroll_far[OF far] updateVisibleItems_fields f)
  show "length (data shrunk_after_scroll) = 10"
    "itemHeight shrunk_after_scroll = 60" "containerHeight shrunk_after_scroll = 600"
    "bufferSize shrunk_after_scroll = 5" "scrollTop shrunk_after_scroll = 30000"
    by (simp_all add: shrunk_after_scroll_def setData_def updateVisibleItems_fields g)
  show "startIndex shrunk_after_scroll = Fin 495"
    by (simp add: shrunk_after_scroll_def setData_def updateVisibleItems_fields
        calculateVisibleRange_def g jssub_def fl_eval)
  show "endIndex shrunk_after_scroll = Fin 9"
    by (simp add: shrunk_after_scroll_def setData_def updateVisibleItems_fields
        calculateVisibleRange_def g jssub_def fl_eval)
qed

lemma five_rows_fields:
  "length (data five_rows) = 5"
  "itemHeight five_rows = 333 / 10" "containerHeight five_rows = 100"
  "bufferSize five_rows = 0" "scrollTop five_rows = 16649999999999997 / 100000000000000"
  "startIndex five_rows = Fin 5"
  "endIndex five_rows = Fin 4"
proof -
  let ?s = "setData (new_VirtualScrollingManager (333 / 10) 0 100) [0..<5] :: nat VirtualScrollingManager"
  have f: "itemHeight ?s = 333 / 10" "containerHeight ?s = 100" "bufferSize ?s = 0"
    "length (data ?s) = 5" "scrollTop ?s = 0"
    by (simp_all add: setData_def new_VirtualScrollingManager_def updateVisibleItems_fields)
  have far: "scrolledFar ?s (16649999999999997 / 100000000000000)"
    unfolding scrolledFar_def f by (simp add: jssub_def fl_eval)
  have e: "five_rows = updateVisibleItems (?s\<lparr>scrollTop := 16649999999999997 / 100000000000000\<rparr>)"
    unfolding five_rows_def by (rule handleScroll_far[OF far])
  show "length (data five_rows) = 5"
    "itemHeight five_rows = 333 / 10" "containerHeight five_rows = 100"
    "bufferSize five_rows = 0" "scrollTop five_rows = 16649999999999997 / 100000000000000"
    unfolding e by (simp_all add: updateVisibleItems_fields f)
  show "startIndex five_rows = Fin 5"
    unfolding e by (simp add: updateVisibleItems_fields calculateVisibleRange_def f jssub_def fl_eval)
  show "endIndex five_rows = Fin 4"
    unfolding e by (simp add: updateVisibleItems_fields calculateVisibleRange_def f jssub_def fl_eval)
qed

text \<open>
  The window 15 to 35 of the example scenario is ordered and within the list of 1000
  records; a renderer that was given no list has \<open>endIndex = -1\<close> below
  \<open>startIndex = 0\<close>; and the renderer that kept its offset 30000 over a list of 10
  records renders nothing when it updates again.
\<close>

theorem visible_range_bounds_witness:
  "startIndex (calculateVisibleRange (handleScroll thousand_records 1200)) = Fin 15
   \<and> endIndex (calculateVisibleRange (handleScroll thousand_records 1200)) = Fin 35
   \<and> jsle (startIndex (calculateVisibleRange (handleScroll thousand_records 1200)))
          (endIndex (calculateVisibleRange (handleScroll thousand_records 1200)))
   \<and> jsle (Fin 0) (startIndex (calculateVisibleRange (handleScroll thousand_records 1200)))
   \<and> jsle (endIndex (calculateVisibleRange (handleScroll thousand_records 1200))) (Fin 999)
   \<and> jsle (windowLow (handleScroll thousand_records 1200)) (windowHigh (handleScroll thousand_records 1200))
   \<and> data (new_VirtualScrollingManager 60 5 600 :: nat VirtualScrollingManager) = []
   \<and> \<not> jsle (startIndex (calculateVisibleRange (new_VirtualScrollingManager 60 5 600 :: nat VirtualScrollingManager)))
            (endIndex (calculateVisibleRange (new_VirtualScrollingManager 60 5 600 :: nat VirtualScrollingManager)))
   \<and> endIndex (calculateVisibleRange (new_VirtualScrollingManager 60 5 600 :: nat VirtualScrollingManager))
       = Fin (- 1)
   \<and> \<not> jsle (startIndex (calculateVisibleRange shrunk_after_scroll))
            (endIndex (calculateVisibleRange shrunk_after_scroll))
   \<and> rendered (updateVisibleItems shrunk_after_scroll) = []"
proof -
  let ?s = "handleScroll thousand_records 1200"
  let ?n = "new_VirtualScrollingManager 60 5 600 :: nat VirtualScrollingManager"
  note g = scrolled_1200
  have a: "startIndex (calculateVisibleRange ?s) = Fin 15"
    "endIndex (calculateVisibleRange ?s) = Fin 35"
    by (simp_all add: calculateVisibleRange_def g jssub_def fl_eval)
  have o: "jsle (startIndex (calculateVisibleRange ?s)) (endIndex (calculateVisibleRange ?s))"
    by (simp add: a)
  from visible_range_bounds[of ?s] o
  have b: "jsle (Fin 0) (startIndex (calculateVisibleRange ?s))"
    "jsle (endIndex (calculateVisibleRange ?s)) (Fin (of_nat (length (data ?s)) - 1))"
    "jsle (windowLow ?s) (windowHigh ?s)"
    by blast+
  have d: "data ?n = []" by (simp add: new_VirtualScrollingManager_def)
  from visible_range_bounds[of ?n] d
  have c: "\<not> jsle (startIndex (calculateVisibleRange ?n)) (endIndex (calculateVisibleRange ?n))"
    by blast
  have e: "endIndex (calculateVisibleRange ?n) = Fin (- 1)"
    by (simp add: calculateVisibleRange_def new_VirtualScrollingManager_def jssub_def fl_eval)
  have u: "\<not> jsle (startIndex (calculateVisibleRange shrunk_after_scroll))
                 (endIndex (calculateVisibleRange shrunk_after_scroll))"
    by (simp add: calculateVisibleRange_def shrunk_after_scroll_fields jssub_def fl_eval)
  from visible_range_bounds[of shrunk_after_scroll] u
  have r: "rendered (updateVisibleItems shrunk_after_scroll) = []" by blast
  from a o b c d e u r show ?thesis by (simp add: g)
qed

text \<open>
  Claim C8 as stated fails on lists that are not empty. The renderer keeps its
  \<open>scrollTop\<close> when \<open>setData\<close> replaces the list: after scrolling a list of 1000 records
  to offset 30000, \<open>setData\<close> with 10 records computes \<open>startIndex = 495\<close> and
  \<open>endIndex = 9\<close>. And with five rows of height 33.3 and the offset 166.49999999999997,
  which is less than the total height 166.5, the quotient of the two doubles rounds to 5,
  so that \<open>startIndex = 5\<close> and \<open>endIndex = 4\<close>.
\<close>

theorem visible_range_counterexample:
  "length (data shrunk_after_scroll) = 10
   \<and> startIndex shrunk_after_scroll = Fin 495
   \<and> endIndex shrunk_after_scroll = Fin 9
   \<and> \<not> jsle (startIndex shrunk_after_scroll) (endIndex shrunk_after_scroll)
   \<and> \<not> jsle (startIndex shrunk_after_scroll) (Fin (of_nat (length (data shrunk_after_scroll)) - 1))
   \<and> length (data five_rows) = 5
   \<and> totalHeight five_rows = Fin (333 / 2)
   \<and> jslt (num (scrollTop five_rows)) (totalHeight five_rows)
   \<and> startIndex five_rows = Fin 5
   \<and> endIndex five_rows = Fin 4
   \<and> \<not> jsle (startIndex five_rows) (endIndex five_rows)
   \<and> \<not> jsle (startIndex five_rows) (Fin (of_nat (length (data five_rows)) - 1))"
proof -
  have t: "totalHeight five_rows = Fin (333 / 2)"
  proof -
    let ?s = "setData (new_VirtualScrollingManager (333 / 10) 0 100) [0..<5] :: nat VirtualScrollingManager"
    have f: "itemHeight ?s = 333 / 10" "scrollTop ?s = 0"
      by (simp_all add: setData_def new_VirtualScrollingManager_def updateVisibleItems_fields)
    have far: "scrolledFar ?s (16649999999999997 / 100000000000000)"
      unfolding scrolledFar_def f by (simp add: jssub_def fl_eval)
    have "totalHeight five_rows = totalHeight ?s"
      unfolding five_rows_def handleScroll_far[OF far] by (simp add: updateVisibleItems_fields)
    also have "\<dots> = Fin (333 / 2)"
      by (simp add: setData_def new_VirtualScrollingManager_def updateVisibleItems_fields fl_eval)
    finally show ?thesis .
  qed
  have l: "jslt (num (scrollTop five_rows)) (totalHeight five_rows)"
    unfolding t five_rows_fields by (simp add: fl_eval)
  show ?thesis
    using t l by (simp add: shrunk_after_scroll_fields five_rows_fields)
qed

subsection \<open>Listeners after destroy\<close>

lemma construct_destroy_keeps_listeners:
  assumes "construct p h b = Inr (s, p')"
  shows "Closure (closures p) \<in> set (scrollListeners (destroy s p'))
       \<and> Closure (closures p + 1) \<in> set (resizeListeners (destroy s p'))"
  using assms
  by (auto simp: construct_def destroy_def setupEventListeners_def setupContainer_def
      addEventListener_def removeEventListener_def split: if_splits)

text \<open>
  Claim C9 at a concrete input. The constructor registers two fresh closures;
  \<open>destroy\<close> asks to remove the prototype's methods \<open>handleScroll\<close> and
  \<open>updateContainerHeight\<close>, which were never registered, so both closures stay. After
  one create/destroy cycle on a fresh page one scroll listener and one resize listener
  remain, after three cycles three of each.
\<close>

theorem destroy_leaves_listeners:
  "scrollListeners (create_destroy fresh_page) = [Closure 0]
   \<and> resizeListeners (create_destroy fresh_page) = [Closure 1]
   \<and> scrollListeners (create_destroy (create_destroy (create_destroy fresh_page)))
        = [Closure 0, Closure 2, Closure 4]
   \<and> resizeListeners (create_destroy (create_destroy (create_destroy fresh_page)))
        = [Closure 1, Closure 3, Closure 5]"
  by (simp add: create_destroy_def fresh_page_def construct_def destroy_def setupEventListeners_def
      setupContainer_def addEventListener_def removeEventListener_def)

subsection \<open>Strings\<close>

lemma startsWith_prefix: "startsWith s q = prefix q s"
  by (induction s q rule: startsWith.induct) auto

lemma includesText_sublist: "includesText s q = sublist q s"
  by (induction s) (auto simp: startsWith_prefix sublist_Cons_right)

lemma matchesQuery_sublist: "matchesQuery lower q = (\<lambda>v. sublist q (lower (numberText v)))"
  by (rule ext) (simp add: matchesQuery_def includesText_sublist)

subsection \<open>The search scan and its ceiling\<close>

lemma ceiling_gap: "99 \<le> n \<Longrightarrow> n < 100 \<Longrightarrow> 100 - n = Suc 0"
  by arith

lemma searchLoop_results:
  "length results < 100 \<Longrightarrow>
   fst (searchLoop lower q vs results i) = take 100 (results @ filter (matchesQuery lower q) vs)"
  by (induction lower q vs results i rule: searchLoop.induct) (auto simp: ceiling_gap)

lemma searchLoop_examined_le:
  "snd (searchLoop lower q vs results i) \<le> i + length vs"
  by (induction lower q vs results i rule: searchLoop.induct) auto

lemma searchLoop_examined_ge:
  "i \<le> snd (searchLoop lower q vs results i)"
  by (induction lower q vs results i rule: searchLoop.induct) (auto intro: Suc_leD)

lemma searchLoop_prefix:
  "length results < 100 \<Longrightarrow>
   fst (searchLoop lower q vs results i)
     = results @ filter (matchesQuery lower q) (take (snd (searchLoop lower q vs results i) - i) vs)"
proof (induction lower q vs results i rule: searchLoop.induct)
  case (1 lower q results i)
  then show ?case by simp
next
  case (2 lower q v rest results i)
  have ge: "Suc i \<le> snd (searchLoop lower q rest rs (Suc i))" for rs
    using searchLoop_examined_ge[where i="Suc i" and lower=lower and q=q and vs=rest and results=rs] by simp
  have tk: "take (snd (searchLoop lower q rest rs (Suc i)) - i) (v # rest)
            = v # take (snd (searchLoop lower q rest rs (Suc i)) - Suc i) rest" for rs
    using ge[of rs] by (simp add: take_Cons' Suc_diff_le)
  show ?case using 2 by (auto simp: tk)
qed

lemma searchLoop_full_scan:
  "length (results @ filter (matchesQuery lower q) vs) < 100 \<Longrightarrow>
   snd (searchLoop lower q vs results i) = i + length vs"
  by (induction lower q vs results i rule: searchLoop.induct) auto

lemma searchLoop_stops_at_match:
  "length results < 100 \<Longrightarrow> length (results @ filter (matchesQuery lower q) vs) \<ge> 100 \<Longrightarrow>
   snd (searchLoop lower q vs results i) > i
   \<and> matchesQuery lower q (vs ! (snd (searchLoop lower q vs results i) - i - 1))"
proof (induction lower q vs results i rule: searchLoop.induct)
  case (1 lower q results i)
  then show ?case by simp
next
  case (2 lower q v rest results i)
  have ge: "Suc i \<le> snd (searchLoop lower q rest rs (Suc i))" for rs
    using searchLoop_examined_ge[where i="Suc i" and lower=lower and q=q and vs=rest and results=rs] by simp
  show ?case
  proof (cases "matchesQuery lower q v")
    case True
    show ?thesis
    proof (cases "length (results @ [v]) \<ge> 100")
      case True
      with \<open>matchesQuery lower q v\<close> show ?thesis by simp
    next
      case False
      then have l: "length (results @ [v]) < 100" by simp
      have "i < Suc i" by simp
      from "2.IH"(1)[OF \<open>matchesQuery lower q v\<close> False l] "2.prems" \<open>matchesQuery lower q v\<close>
      have ih: "Suc i < snd (searchLoop lower q rest (results @ [v]) (Suc i))
         \<and> matchesQuery lower q (rest ! (snd (searchLoop lower q rest (results @ [v]) (Suc i)) - Suc i - 1))"
        by simp
      then show ?thesis using True False by (auto simp: nth_Cons')
    qed
  next
    case False
    from "2.IH"(2)[OF False] "2.prems" False
    have ih: "Suc i < snd (searchLoop lower q rest results (Suc i))
         \<and> matchesQuery lower q (rest ! (snd (searchLoop lower q rest results (Suc i)) - Suc i - 1))"
      by simp
    then show ?thesis using False by (auto simp: nth_Cons')
  qed
qed

lemma scanStart_cache: "allVouchersCache (scanStart w) = Some (collectionSearched w)"
  by (simp add: scanStart_def showMessage_def loadAllVouchersCache_def collectionSearched_def
      split: option.splits)

lemma scanStart_frame:
  "searchDebounceTimer (scanStart w) = searchDebounceTimer w"
  "isSearchMode (scanStart w) = isSearchMode w"
  "currentUserId (scanStart w) = currentUserId w"
  "searchInput (scanStart w) = searchInput w"
  "remoteVouchers (scanStart w) = remoteVouchers w"
  "voucherTableBody (scanStart w) = voucherTableBody w"
  "dailyRenders (scanStart w) = dailyRenders w"
  "timers (scanStart w) = timers w"
  "nextTimerId (scanStart w) = nextTimerId w"
  "clock (scanStart w) = clock w"
  by (simp_all add: scanStart_def showMessage_def loadAllVouchersCache_def split: option.splits)

lemma scanStart_queries: "queriesIssued (scanStart w) = queriesIssued w + 1"
  by (simp add: scanStart_def showMessage_def loadAllVouchersCache_def queriesIssued_def
      split: option.splits)

lemma scanStart_messages: "\<exists>ms. messages (scanStart w) = messages w @ ms"
  by (simp add: scanStart_def showMessage_def loadAllVouchersCache_def split: option.splits)

lemma performVoucherSearch_skip: "\<not> searchGuard w \<Longrightarrow> performVoucherSearch lower w = w"
  by (auto simp: performVoucherSearch_def searchGuard_def)

lemma performVoucherSearch_empty:
  assumes "searchGuard w" "scanResults lower w = []"
  shows "performVoucherSearch lower w
         = (showMessage ((scanStart w)\<lparr>searchResults := []\<rparr>) (NotFound (voucherSearchQuery w)) True)
             \<lparr>isSearchMode := False\<rparr>"
  using assms scanStart_cache[of w]
  by (simp add: performVoucherSearch_def searchGuard_def Let_def scanResults_def flip: scanStart_def)

lemma performVoucherSearch_found:
  assumes "searchGuard w" "scanResults lower w \<noteq> []"
  shows "performVoucherSearch lower w
         = displaySearchResults
             (showMessage ((scanStart w)\<lparr>searchResults := scanResults lower w, isSearchMode := True\<rparr>)
                (if length (scanResults lower w) \<ge> 100 then FoundTruncated else FoundCount (length (scanResults lower w)))
                False)"
  using assms scanStart_cache[of w]
  by (simp add: performVoucherSearch_def searchGuard_def Let_def scanResults_def flip: scanStart_def)

lemma scanResults_eq:
  "searchInput w = Some v \<Longrightarrow> scanResults lower w = take 100 (matchingVouchers lower v (collectionSearched w))"
  by (simp add: scanResults_def searchLoop_results matchingVouchers_def voucherSearchQuery_def
      matchesQuery_sublist)

lemma performVoucherSearch_frame:
  "timers (performVoucherSearch lower w) = timers w"
  "nextTimerId (performVoucherSearch lower w) = nextTimerId w"
  "clock (performVoucherSearch lower w) = clock w"
  "searchInput (performVoucherSearch lower w) = searchInput w"
  "currentUserId (performVoucherSearch lower w) = currentUserId w"
  "searchDebounceTimer (performVoucherSearch lower w) = searchDebounceTimer w"
  "dailyRenders (performVoucherSearch lower w) = dailyRenders w"
  "remoteVouchers (performVoucherSearch lower w) = remoteVouchers w"
proof -
  consider "\<not> searchGuard w" | "searchGuard w" "scanResults lower w = []" | "searchGuard w" "scanResults lower w \<noteq> []"
    by blast
  then have "timers (performVoucherSearch lower w) = timers w
     \<and> nextTimerId (performVoucherSearch lower w) = nextTimerId w
     \<and> clock (performVoucherSearch lower w) = clock w
     \<and> searchInput (performVoucherSearch lower w) = searchInput w
     \<and> currentUserId (performVoucherSearch lower w) = currentUserId w
     \<and> searchDebounceTimer (performVoucherSearch lower w) = searchDebounceTimer w
     \<and> dailyRenders (performVoucherSearch lower w) = dailyRenders w
     \<and> remoteVouchers (performVoucherSearch lower w) = remoteVouchers w"
  proof cases
    case 1
    then show ?thesis by (simp add: performVoucherSearch_skip)
  next
    case 2
    then show ?thesis
      by (simp add: performVoucherSearch_empty showMessage_def scanStart_frame)
  next
    case 3
    then show ?thesis
      by (simp add: performVoucherSearch_found showMessage_def displaySearchResults_def scanStart_frame)
  qed
  then show "timers (performVoucherSearch lower w) = timers w"
    "nextTimerId (performVoucherSearch lower w) = nextTimerId w"
    "clock (performVoucherSearch lower w) = clock w"
    "searchInput (performVoucherSearch lower w) = searchInput w"
    "currentUserId (performVoucherSearch lower w) = currentUserId w"
    "searchDebounceTimer (performVoucherSearch lower w) = searchDebounceTimer w"
    "dailyRenders (performVoucherSearch lower w) = dailyRenders w"
    "remoteVouchers (performVoucherSearch lower w) = remoteVouchers w"
    by simp_all
qed

lemma queriesIssued_showMessage:
  "queriesIssued (showMessage w m e) = queriesIssued w + (if m = Searching then 1 else 0)"
  by (simp add: queriesIssued_def showMessage_def)

lemma queriesIssued_update [simp]:
  "queriesIssued (w\<lparr>searchResults := r\<rparr>) = queriesIssued w"
  "queriesIssued (w\<lparr>isSearchMode := b\<rparr>) = queriesIssued w"
  "queriesIssued (w\<lparr>voucherTableBody := r\<rparr>) = queriesIssued w"
  by (simp_all add: queriesIssued_def)

lemma performVoucherSearch_queries:
  "queriesIssued (performVoucherSearch lower w) = queriesIssued w + (if searchGuard w then 1 else 0)"
proof -
  consider "\<not> searchGuard w" | "searchGuard w" "scanResults lower w = []" | "searchGuard w" "scanResults lower w \<noteq> []"
    by blast
  then show ?thesis
  proof cases
    case 1
    then show ?thesis by (simp add: performVoucherSearch_skip)
  next
    case 2
    then show ?thesis
      by (simp add: performVoucherSearch_empty queriesIssued_showMessage scanStart_queries)
  next
    case 3
    then show ?thesis
      by (simp add: performVoucherSearch_found queriesIssued_showMessage scanStart_queries
          displaySearchResults_def)
  qed
qed

lemma performVoucherSearch_outcome:
  assumes g: "searchGuard w"
  shows "searchResults (performVoucherSearch lower w) = scanResults lower w"
    and "isSearchMode (performVoucherSearch lower w) = (scanResults lower w \<noteq> [])"
    and "voucherTableBody (performVoucherSearch lower w)
           = (if scanResults lower w = [] then voucherTableBody w else scanResults lower w)"
    and "last (messages (performVoucherSearch lower w))
           = (if scanResults lower w = [] then (NotFound (voucherSearchQuery w), True)
              else if length (scanResults lower w) \<ge> 100 then (FoundTruncated, False)
              else (FoundCount (length (scanResults lower w)), False))"
    and "allVouchersCache (performVoucherSearch lower w) = Some (collectionSearched w)"
proof -
  have "searchResults (performVoucherSearch lower w) = scanResults lower w
      \<and> isSearchMode (performVoucherSearch lower w) = (scanResults lower w \<noteq> [])
      \<and> voucherTableBody (performVoucherSearch lower w)
           = (if scanResults lower w = [] then voucherTableBody w else scanResults lower w)
      \<and> last (messages (performVoucherSearch lower w))
           = (if scanResults lower w = [] then (NotFound (voucherSearchQuery w), True)
              else if length (scanResults lower w) \<ge> 100 then (FoundTruncated, False)
              else (FoundCount (length (scanResults lower w)), False))
      \<and> allVouchersCache (performVoucherSearch lower w) = Some (collectionSearched w)"
  proof (cases "scanResults lower w = []")
    case True
    then show ?thesis
      using g by (simp add: performVoucherSearch_empty showMessage_def scanStart_frame scanStart_cache)
  next
    case False
    then show ?thesis
      using g by (simp add: performVoucherSearch_found showMessage_def displaySearchResults_def
          scanStart_frame scanStart_cache)
  qed
  then show "searchResults (performVoucherSearch lower w) = scanResults lower w"
    and "isSearchMode (performVoucherSearch lower w) = (scanResults lower w \<noteq> [])"
    and "voucherTableBody (performVoucherSearch lower w)
           = (if scanResults lower w = [] then voucherTableBody w else scanResults lower w)"
    and "last (messages (performVoucherSearch lower w))
           = (if scanResults lower w = [] then (NotFound (voucherSearchQuery w), True)
              else if length (scanResults lower w) \<ge> 100 then (FoundTruncated, False)
              else (FoundCount (length (scanResults lower w)), False))"
    and "allVouchersCache (performVoucherSearch lower w) = Some (collectionSearched w)"
    by simp_all
qed

lemma searchGuardI:
  "searchInput w = Some v \<Longrightarrow> trim v \<noteq> [] \<Longrightarrow> \<not> userMissing w \<Longrightarrow> searchGuard w"
  by (simp add: searchGuard_def voucherSearchQuery_def)

text \<open>
  Claim C5. For a non-blank query of a signed-in user, \<open>performVoucherSearch\<close> leaves in
  \<open>searchResults\<close> the first 100 records, in collection order, whose lower-cased voucher
  number includes the trimmed, lower-cased query. With more than 100 matches these are
  exactly 100 records and the message shown last is the truncation notice; with fewer than
  100 matches they are all the matches and the message is the plain count (or the
  not-found notice), not the truncation notice. The loop examines a prefix of the
  collection once: the results are the matches within the examined prefix; when there are
  at least 100 matches the last record examined is a match (the scan stops at the record
  that fills the ceiling), and with fewer it examines the whole collection.
\<close>

theorem search_ceiling:
  assumes i: "searchInput w = Some v" and q: "trim v \<noteq> []" and u: "\<not> userMissing w"
  shows "searchResults (performVoucherSearch lower w) = take 100 (matchingVouchers lower v (collectionSearched w))
       \<and> (length (matchingVouchers lower v (collectionSearched w)) > 100 \<longrightarrow>
            length (searchResults (performVoucherSearch lower w)) = 100
          \<and> last (messages (performVoucherSearch lower w)) = (FoundTruncated, False))
       \<and> (length (matchingVouchers lower v (collectionSearched w)) < 100 \<longrightarrow>
            searchResults (performVoucherSearch lower w) = matchingVouchers lower v (collectionSearched w)
          \<and> last (messages (performVoucherSearch lower w))
              = (if matchingVouchers lower v (collectionSearched w) = [] then (NotFound (trim v), True)
                 else (FoundCount (length (matchingVouchers lower v (collectionSearched w))), False)))
       \<and> (let examined = snd (searchLoop lower (lower (trim v)) (collectionSearched w) [] 0)
          in examined \<le> length (collectionSearched w)
           \<and> searchResults (performVoucherSearch lower w) = matchingVouchers lower v (take examined (collectionSearched w))
           \<and> (length (matchingVouchers lower v (collectionSearched w)) \<ge> 100 \<longrightarrow>
                 0 < examined
               \<and> sublist (lower (trim v)) (lower (numberText (collectionSearched w ! (examined - 1)))))
           \<and> (length (matchingVouchers lower v (collectionSearched w)) < 100 \<longrightarrow>
                 examined = length (collectionSearched w)))"
proof -
  let ?vs = "collectionSearched w"
  let ?m = "matchingVouchers lower v ?vs"
  let ?w' = "performVoucherSearch lower w"
  let ?n = "snd (searchLoop lower (lower (trim v)) ?vs [] 0)"
  have g: "searchGuard w" by (rule searchGuardI[OF i q u])
  have r: "searchResults ?w' = take 100 ?m"
    by (simp add: performVoucherSearch_outcome(1)[OF g] scanResults_eq[OF i])
  have sr: "scanResults lower w = take 100 ?m" by (rule scanResults_eq[OF i])
  have vq: "voucherSearchQuery w = trim v" using i by (simp add: voucherSearchQuery_def)
  have msg: "last (messages ?w')
           = (if take 100 ?m = [] then (NotFound (trim v), True)
              else if length (take 100 ?m) \<ge> 100 then (FoundTruncated, False)
              else (FoundCount (length (take 100 ?m)), False))"
    using performVoucherSearch_outcome(4)[OF g] by (simp only: sr vq)
  have 2: "length ?m > 100 \<longrightarrow> length (searchResults ?w') = 100 \<and> last (messages ?w') = (FoundTruncated, False)"
    using msg by (auto simp: r)
  have 3: "length ?m < 100 \<longrightarrow> searchResults ?w' = ?m
          \<and> last (messages ?w') = (if ?m = [] then (NotFound (trim v), True) else (FoundCount (length ?m), False))"
    using msg by (auto simp: r)
  have 4: "?n \<le> length ?vs"
    using searchLoop_examined_le[where lower=lower and q="lower (trim v)" and vs="?vs" and results="[]" and i=0] by simp
  have 5: "searchResults ?w' = matchingVouchers lower v (take ?n ?vs)"
    using searchLoop_prefix[where lower=lower and q="lower (trim v)" and vs="?vs" and results="[]" and i=0]
    by (simp add: performVoucherSearch_outcome(1)[OF g] scanResults_def vq matchingVouchers_def
        matchesQuery_sublist)
  have 6: "length ?m \<ge> 100 \<longrightarrow> 0 < ?n \<and> sublist (lower (trim v)) (lower (numberText (?vs ! (?n - 1))))"
    using searchLoop_stops_at_match[where lower=lower and q="lower (trim v)" and vs="?vs" and results="[]" and i=0]
    by (simp add: matchingVouchers_def matchesQuery_sublist)
  have 7: "length ?m < 100 \<longrightarrow> ?n = length ?vs"
    using searchLoop_full_scan[where lower=lower and q="lower (trim v)" and vs="?vs" and results="[]" and i=0]
    by (simp add: matchingVouchers_def matchesQuery_sublist)
  from r 2 3 4 5 6 7 show ?thesis by (simp add: Let_def)
qed

text \<open>
  Claim C10. For a non-blank query of a signed-in user whose scan finds no match,
  \<open>performVoucherSearch\<close> leaves \<open>isSearchMode\<close> false and \<open>searchResults\<close> empty, shows
  the not-found notice as an error and does not touch the rows of the table; a following
  \<open>renderDailyVouchers\<close> is not suppressed and renders the daily list.
\<close>

theorem no_match_keeps_unfiltered_list:
  assumes i: "searchInput w = Some v" and q: "trim v \<noteq> []" and u: "\<not> userMissing w"
    and z: "matchingVouchers lower v (collectionSearched w) = []"
  shows "isSearchMode (performVoucherSearch lower w) = False
       \<and> searchResults (performVoucherSearch lower w) = []
       \<and> voucherTableBody (performVoucherSearch lower w) = voucherTableBody w
       \<and> last (messages (performVoucherSearch lower w)) = (NotFound (trim v), True)
       \<and> dailyRenders (renderDailyVouchers (performVoucherSearch lower w))
           = dailyRenders (performVoucherSearch lower w) + 1"
proof -
  have g: "searchGuard w" by (rule searchGuardI[OF i q u])
  have sr: "scanResults lower w = []" using scanResults_eq[OF i] z by simp
  have vq: "voucherSearchQuery w = trim v" using i by (simp add: voucherSearchQuery_def)
  show ?thesis
    using performVoucherSearch_outcome[OF g]
    by (simp add: sr vq renderDailyVouchers_def)
qed

lemma latin1Lower_numbered:
  "latin1Lower (numberText (numbered n)) = [107, 228, 45] @ replicate n 55"
  by (simp add: latin1Lower_def numberText_def numbered_def)

lemma numbered_matches: "sublist [228, 45] (latin1Lower (numberText (numbered n)))"
  unfolding latin1Lower_numbered by (simp add: sublist_Cons_right)

lemma unnumbered_no_match: "\<not> sublist [228, 45] (latin1Lower (numberText unnumbered))"
  by (simp add: latin1Lower_def numberText_def unnumbered_def)

lemma latin1Lower_numbered_012:
  "latin1Lower (numberText (numbered 0)) = [107, 228, 45]"
  "latin1Lower (numberText (numbered 1)) = [107, 228, 45, 55]"
  "latin1Lower (numberText (numbered (Suc 0))) = [107, 228, 45, 55]"
  "latin1Lower (numberText (numbered 2)) = [107, 228, 45, 55, 55]"
  by (simp_all add: latin1Lower_numbered numeral_2_eq_2)

lemma trim_query: "trim [160, 228, 45, 32] = [228, 45]"
  by (simp add: trim_def isWhiteSpace_def)

lemma lower_query: "latin1Lower [228, 45] = [228, 45]"
  by (simp add: latin1Lower_def)

lemma numbered_all_match:
  "filter (\<lambda>v. sublist [228, 45] (latin1Lower (numberText v))) (map numbered ns) = map numbered ns"
  by (simp add: filter_map o_def numbered_matches)

lemma many_matches_prefix:
  "matchingVouchers latin1Lower [160, 228, 45, 32] (take n (unnumbered # map numbered [0..<150]))
     = map numbered [0..<min (n - 1) 150]"
proof (cases n)
  case 0
  then show ?thesis by (simp add: matchingVouchers_def)
next
  case (Suc k)
  have "take k [0..<150] = [0..<min k 150]"
    by (cases "k \<le> 150") (simp_all add: take_upt min_def)
  then have "take k (map numbered [0..<150]) = map numbered [0..<min k 150]"
    by (simp add: take_map)
  then show ?thesis
    using Suc by (simp add: matchingVouchers_def trim_query lower_query unnumbered_no_match numbered_all_match)
qed

lemma many_matches_all:
  "matchingVouchers latin1Lower [160, 228, 45, 32] (unnumbered # map numbered [0..<150])
     = map numbered [0..<150]"
  using many_matches_prefix[of 151] by simp

text \<open>
  The scenario of the specification: 150 of 151 records match a query that the code
  trims of a no-break space, that occurs inside the voucher numbers and that needs the
  case mapping of a letter outside ASCII. 100 results are returned, the truncation notice
  is shown, and the scan stops after 101 of the 151 records.
\<close>

theorem search_ceiling_witness:
  "searchInput many_matches = Some [160, 228, 45, 32] \<and> trim [160, 228, 45, 32] = [228, 45]
   \<and> \<not> userMissing many_matches
   \<and> length (collectionSearched many_matches) = 151
   \<and> length (matchingVouchers latin1Lower [160, 228, 45, 32] (collectionSearched many_matches)) = 150
   \<and> searchResults (performVoucherSearch latin1Lower many_matches) = map numbered [0..<100]
   \<and> length (searchResults (performVoucherSearch latin1Lower many_matches)) = 100
   \<and> last (messages (performVoucherSearch latin1Lower many_matches)) = (FoundTruncated, False)
   \<and> snd (searchLoop latin1Lower [228, 45] (collectionSearched many_matches) [] 0) = 101"
proof -
  let ?q = "[160, 228, 45, 32] :: jsstring"
  let ?n = "snd (searchLoop latin1Lower [228, 45] (collectionSearched many_matches) [] 0)"
  have i: "searchInput many_matches = Some ?q"
    by (simp add: many_matches_def new_VoucherManager_def initialize_def)
  have q: "trim ?q \<noteq> []" by (simp add: trim_query)
  have u: "\<not> userMissing many_matches"
    by (simp add: userMissing_def many_matches_def new_VoucherManager_def initialize_def ascii_def)
  have c: "collectionSearched many_matches = unnumbered # map numbered [0..<150]"
    by (simp add: collectionSearched_def many_matches_def new_VoucherManager_def initialize_def)
  have m: "matchingVouchers latin1Lower ?q (collectionSearched many_matches) = map numbered [0..<150]"
    by (simp only: c many_matches_all)
  have l: "length (matchingVouchers latin1Lower ?q (collectionSearched many_matches)) = 150"
    by (simp add: m)
  have t: "take 100 (map numbered [0..<150]) = map numbered [0..<100]"
    by (simp add: take_map)
  note T = search_ceiling[where lower = latin1Lower, OF i q u]
  from T have r: "searchResults (performVoucherSearch latin1Lower many_matches) = map numbered [0..<100]
      \<and> length (searchResults (performVoucherSearch latin1Lower many_matches)) = 100
      \<and> last (messages (performVoucherSearch latin1Lower many_matches)) = (FoundTruncated, False)"
    by (simp add: m t)
  from T have "searchResults (performVoucherSearch latin1Lower many_matches)
      = matchingVouchers latin1Lower ?q
          (take (snd (searchLoop latin1Lower (latin1Lower (trim ?q)) (collectionSearched many_matches) [] 0))
             (collectionSearched many_matches))"
    unfolding Let_def by blast
  then have "searchResults (performVoucherSearch latin1Lower many_matches)
      = matchingVouchers latin1Lower ?q (take ?n (collectionSearched many_matches))"
    by (simp only: trim_query lower_query)
  with r have "map numbered [0..<100] = map numbered [0..<min (?n - 1) 150]"
    by (simp only: c many_matches_prefix)
  then have "length (map numbered [0..<100]) = length (map numbered [0..<min (?n - 1) 150])"
    by (rule arg_cong)
  then have n: "?n = 101" by simp
  from i u l r n show ?thesis by (simp add: trim_query c)
qed

lemma trim_zz: "trim [160, 122, 122, 160] = [122, 122]"
  by (simp add: trim_def isWhiteSpace_def)

text \<open>
  No voucher number contains \<open>zz\<close>, typed between two no-break spaces: the notice names
  the trimmed query and search mode stays off.
\<close>

theorem no_match_keeps_unfiltered_list_witness:
  "searchInput no_matches = Some [160, 122, 122, 160] \<and> trim [160, 122, 122, 160] = [122, 122]
   \<and> \<not> userMissing no_matches
   \<and> matchingVouchers latin1Lower [160, 122, 122, 160] (collectionSearched no_matches) = []
   \<and> isSearchMode (performVoucherSearch latin1Lower no_matches) = False
   \<and> searchResults (performVoucherSearch latin1Lower no_matches) = []
   \<and> last (messages (performVoucherSearch latin1Lower no_matches)) = (NotFound [122, 122], True)
   \<and> dailyRenders (renderDailyVouchers (performVoucherSearch latin1Lower no_matches))
       = dailyRenders (performVoucherSearch latin1Lower no_matches) + 1"
proof -
  let ?q = "[160, 122, 122, 160] :: jsstring"
  have i: "searchInput no_matches = Some ?q"
    by (simp add: no_matches_def new_VoucherManager_def initialize_def)
  have q: "trim ?q \<noteq> []" by (simp add: trim_zz)
  have u: "\<not> userMissing no_matches"
    by (simp add: userMissing_def no_matches_def new_VoucherManager_def initialize_def ascii_def)
  have z: "matchingVouchers latin1Lower ?q (collectionSearched no_matches) = []"
  proof -
    have l: "latin1Lower [122, 122] = [122, 122]" by (simp add: latin1Lower_def)
    show ?thesis
      by (simp add: matchingVouchers_def collectionSearched_def no_matches_def new_VoucherManager_def
          initialize_def trim_zz l latin1Lower_numbered_012 sublist_Cons_right)
  qed
  from no_match_keeps_unfiltered_list[where lower = latin1Lower, OF i q u z] i u z show ?thesis
    by (simp add: trim_zz)
qed

subsection \<open>Debouncing of the search input\<close>

lemma singleSlot_iff:
  "singleSlot w \<longleftrightarrow>
     nextTimerId w \<noteq> 0
     \<and> (timers w = [] \<or> (\<exists>i due. timers w = [(i, due)] \<and> searchDebounceTimer w = Some i \<and> i \<noteq> 0))"
  by (auto simp: singleSlot_def split: list.splits prod.splits)

lemma armedAt_iff:
  "armedAt w t v \<longleftrightarrow>
     searchInput w = Some v \<and> nextTimerId w \<noteq> 0 \<and> clock w = t
     \<and> (if trim v = [] then timers w = []
         else \<exists>i. timers w = [(i, t + 300)] \<and> searchDebounceTimer w = Some i \<and> i \<noteq> 0)"
  by (auto simp: armedAt_def split: list.splits prod.splits)

lemma clearDebounceTimer_singleSlot:
  assumes "singleSlot w"
  shows "clearDebounceTimer w = w\<lparr>timers := []\<rparr>"
proof (cases "timers w")
  case Nil
  then have "w\<lparr>timers := []\<rparr> = w" by (cases w) simp
  then show ?thesis
    using Nil by (simp add: clearDebounceTimer_def clearTimeout_def split: option.splits)
next
  case (Cons p ps)
  then obtain i due where "timers w = [(i, due)]" "searchDebounceTimer w = Some i" "i \<noteq> 0"
    using assms by (auto simp: singleSlot_iff)
  then show ?thesis
    by (simp add: clearDebounceTimer_def clearTimeout_def)
qed

lemma keystroke_blank:
  assumes "singleSlot w" "trim v = []"
  shows "keystroke w v
         = renderDailyVouchers (w\<lparr>searchInput := Some v, timers := [], isSearchMode := False, searchResults := []\<rparr>)"
proof -
  have s: "singleSlot (w\<lparr>searchInput := Some v\<rparr>)" using assms(1) by (simp add: singleSlot_iff)
  show ?thesis
    using assms(2) by (simp add: keystroke_def handleSearchInput_def clearDebounceTimer_singleSlot[OF s])
qed

lemma keystroke_arms:
  assumes "singleSlot w" "trim v \<noteq> []"
  shows "keystroke w v
         = w\<lparr>searchInput := Some v, timers := [(nextTimerId w, clock w + 300)],
              nextTimerId := nextTimerId w + 1, searchDebounceTimer := Some (nextTimerId w)\<rparr>"
proof -
  have s: "singleSlot (w\<lparr>searchInput := Some v\<rparr>)" using assms(1) by (simp add: singleSlot_iff)
  show ?thesis
    using assms(2)
    by (simp add: keystroke_def handleSearchInput_def clearDebounceTimer_singleSlot[OF s] setTimeout_def)
qed

lemma advance_idle: "timers w = [] \<Longrightarrow> advance lower w t = w\<lparr>clock := max (clock w) t\<rparr>"
  by (simp add: advance_def)

lemma advance_early:
  "timers w = [(i, due)] \<Longrightarrow> t < due \<Longrightarrow> advance lower w t = w\<lparr>clock := max (clock w) t\<rparr>"
  by (simp add: advance_def fireTimer_def)

lemma advance_fires:
  "timers w = [(i, due)] \<Longrightarrow> due \<le> t \<Longrightarrow>
   advance lower w t = performVoucherSearch lower (w\<lparr>clock := max (clock w) t, timers := []\<rparr>)"
  by (simp add: advance_def fireTimer_def clearTimeout_def)

lemma armedAt_singleSlot: "armedAt w t v \<Longrightarrow> singleSlot w"
  by (auto simp: armedAt_iff singleSlot_iff split: if_splits)

lemma queriesIssued_fields [simp]:
  "queriesIssued (w\<lparr>clock := c\<rparr>) = queriesIssued w"
  "queriesIssued (w\<lparr>timers := ts\<rparr>) = queriesIssued w"
  "queriesIssued (w\<lparr>searchInput := i\<rparr>) = queriesIssued w"
  "queriesIssued (w\<lparr>nextTimerId := n\<rparr>) = queriesIssued w"
  "queriesIssued (w\<lparr>searchDebounceTimer := d\<rparr>) = queriesIssued w"
  "queriesIssued (w\<lparr>dailyRenders := k\<rparr>) = queriesIssued w"
  by (simp_all add: queriesIssued_def)

lemma queriesIssued_renderDailyVouchers [simp]:
  "queriesIssued (renderDailyVouchers w) = queriesIssued w"
  by (simp add: renderDailyVouchers_def)

lemma keystroke_after_advance:
  assumes s: "singleSlot w" and quiet: "timers w = [] \<or> (\<exists>i due. timers w = [(i, due)] \<and> t < due)"
    and c: "clock w \<le> t"
  shows "armedAt (keystroke (advance lower w t) v) t v \<and> sameSession w (keystroke (advance lower w t) v)"
proof -
  have a: "advance lower w t = w\<lparr>clock := t\<rparr>"
    using quiet c by (auto simp: advance_idle advance_early max_def)
  have s': "singleSlot (w\<lparr>clock := t\<rparr>)" using s by (simp add: singleSlot_iff)
  have n: "nextTimerId w \<noteq> 0" using s by (simp add: singleSlot_iff)
  show ?thesis
  proof (cases "trim v = []")
    case True
    show ?thesis
      using n True
      by (simp add: a keystroke_blank[OF s' True] armedAt_iff sameSession_def renderDailyVouchers_def)
  next
    case False
    show ?thesis
      using n False
      by (simp add: a keystroke_arms[OF s' False] armedAt_iff sameSession_def)
  qed
qed

lemma armedAt_quiet:
  assumes "armedAt w t v" "t' < t + 300"
  shows "timers w = [] \<or> (\<exists>i due. timers w = [(i, due)] \<and> t' < due)"
  using assms by (auto simp: armedAt_iff split: if_splits)

lemma sameSession_trans: "sameSession a b \<Longrightarrow> sameSession b c \<Longrightarrow> sameSession a c"
  by (simp add: sameSession_def)

lemma sameSession_refl: "sameSession a a"
  by (simp add: sameSession_def)

lemma burst_keeps_quiet:
  assumes "armedAt w t v" "withinDelay t ks"
  shows "armedAt (keystrokes lower w ks) (lastTime t ks) (lastValue v ks) \<and> sameSession w (keystrokes lower w ks)"
  using assms
proof (induction ks arbitrary: w t v)
  case Nil
  then show ?case by (simp add: sameSession_refl)
next
  case (Cons k ks)
  obtain t' v' where k: "k = (t', v')" by (cases k)
  from Cons.prems(2) k have tt: "t \<le> t'" "t' < t + 300" "withinDelay t' ks" by simp_all
  have c: "clock w \<le> t'" using Cons.prems(1) tt(1) by (simp add: armedAt_iff)
  from keystroke_after_advance[OF armedAt_singleSlot[OF Cons.prems(1)] armedAt_quiet[OF Cons.prems(1) tt(2)] c, where v=v' and lower=lower]
  have st: "armedAt (keystroke (advance lower w t') v') t' v'" "sameSession w (keystroke (advance lower w t') v')"
    by simp_all
  from Cons.IH[OF st(1) tt(3)] st(2) show ?case
    by (auto simp: k intro: sameSession_trans)
qed

lemma sameSession_collection: "sameSession w w' \<Longrightarrow> collectionSearched w' = collectionSearched w"
  by (simp add: sameSession_def collectionSearched_def split: option.splits)

lemma sameSession_user: "sameSession w w' \<Longrightarrow> userMissing w' = userMissing w"
  by (simp add: sameSession_def userMissing_def)

lemma collectionSearched_fields [simp]:
  "collectionSearched (w\<lparr>clock := c\<rparr>) = collectionSearched w"
  "collectionSearched (w\<lparr>timers := ts\<rparr>) = collectionSearched w"
  by (simp_all add: collectionSearched_def split: option.splits)

lemma userMissing_fields [simp]:
  "userMissing (w\<lparr>clock := c\<rparr>) = userMissing w"
  "userMissing (w\<lparr>timers := ts\<rparr>) = userMissing w"
  by (simp_all add: userMissing_def)

lemma first_keystroke:
  assumes "timers w = []" "nextTimerId w \<noteq> 0" "clock w \<le> t"
  shows "armedAt (keystroke (advance lower w t) v) t v \<and> sameSession w (keystroke (advance lower w t) v)"
proof -
  have s: "singleSlot w" using assms(1,2) by (simp add: singleSlot_iff)
  show ?thesis
    by (rule keystroke_after_advance[OF s _ assms(3)]) (simp add: assms(1))
qed

lemma burst_from_idle:
  assumes "timers w = []" "nextTimerId w \<noteq> 0" "clock w \<le> t" "withinDelay t ks"
  shows "armedAt (keystrokes lower w ((t, v) # ks)) (lastTime t ks) (lastValue v ks)
       \<and> sameSession w (keystrokes lower w ((t, v) # ks))"
proof -
  from first_keystroke[OF assms(1-3), where v=v and lower=lower]
  have f: "armedAt (keystroke (advance lower w t) v) t v" "sameSession w (keystroke (advance lower w t) v)"
    by simp_all
  from burst_keeps_quiet[OF f(1) assms(4)] f(2) show ?thesis
    by (auto intro: sameSession_trans)
qed

lemma fire_after_burst:
  assumes a: "armedAt w1 tlast vlast" and nb: "trim vlast \<noteq> []" and u: "\<not> userMissing w1"
    and T: "tlast + 300 \<le> T"
  shows "queriesIssued (advance lower w1 T) = queriesIssued w1 + 1
       \<and> searchResults (advance lower w1 T) = take 100 (matchingVouchers lower vlast (collectionSearched w1))
       \<and> timers (advance lower w1 T) = []"
proof -
  from a nb obtain i where tm: "timers w1 = [(i, tlast + 300)]" and inp: "searchInput w1 = Some vlast"
    by (auto simp: armedAt_iff)
  let ?w = "w1\<lparr>clock := max (clock w1) T, timers := []\<rparr>"
  have adv: "advance lower w1 T = performVoucherSearch lower ?w"
    by (rule advance_fires[OF tm T])
  have i': "searchInput ?w = Some vlast" using inp by simp
  have g: "searchGuard ?w"
    by (rule searchGuardI[OF i' nb]) (simp add: u)
  show ?thesis
    unfolding adv
    using performVoucherSearch_queries[where w="?w" and lower=lower] performVoucherSearch_outcome(1)[OF g]
      scanResults_eq[OF i'] performVoucherSearch_frame(1)[where w="?w" and lower=lower] g
    by simp
qed

lemma fire_invokes_once:
  assumes a: "armedAt w1 tlast vlast" and nb: "trim vlast \<noteq> []" and T: "tlast + 300 \<le> T"
  shows "advance lower w1 T = performVoucherSearch lower (w1\<lparr>clock := max (clock w1) T, timers := []\<rparr>)
       \<and> searchInput w1 = Some vlast"
proof -
  from a nb obtain i where tm: "timers w1 = [(i, tlast + 300)]" and inp: "searchInput w1 = Some vlast"
    by (auto simp: armedAt_iff)
  show ?thesis using advance_fires[OF tm T] inp by simp
qed

lemma no_fire_before_due:
  assumes a: "armedAt w1 tlast vlast" and T: "T < tlast + 300"
  shows "queriesIssued (advance lower w1 T) = queriesIssued w1"
proof -
  from armedAt_quiet[OF a T] show ?thesis
    by (auto simp: advance_idle advance_early)
qed

lemma handleEnter_singleSlot:
  assumes "singleSlot e"
  shows "handleEnter lower e = performVoucherSearch lower (e\<lparr>timers := []\<rparr>)"
  by (simp add: handleEnter_def clearDebounceTimer_singleSlot[OF assms])

lemma advance_no_timers: "timers w = [] \<Longrightarrow> queriesIssued (advance lower w T) = queriesIssued w"
  by (simp add: advance_idle)

text \<open>
  Claim C6. In a state with no pending timeout, a burst of keystrokes, each less than
  300 ms after the previous one, whose last keystroke leaves a non-blank value: no query
  runs during the burst nor before the last timeout is due; when it is due,
  \<open>performVoucherSearch\<close> is called once, on the state holding the value of the last
  keystroke, and no timeout remains; for a signed-in user this is exactly one more query,
  and its results are those of the last value. Pressing \<open>Enter\<close> (with at most the
  debounce timeout pending) cancels it and calls \<open>performVoucherSearch\<close> at once on the
  current value, and no query follows later. A keystroke that leaves a blank value cancels
  the pending timeout, switches search mode off, empties the search results, renders the
  daily list and runs no query, then or later.
\<close>

theorem debounce_single_query:
  assumes idle: "timers w = []" and ids: "nextTimerId w \<noteq> 0" and now: "clock w \<le> t"
    and burst: "withinDelay t ks"
    and nonblank: "trim (lastValue v ks) \<noteq> []"
    and due: "lastTime t ks + 300 \<le> T"
  shows "queriesIssued (keystrokes lower w ((t, v) # ks)) = queriesIssued w
       \<and> (T' < lastTime t ks + 300 \<longrightarrow>
            queriesIssued (advance lower (keystrokes lower w ((t, v) # ks)) T') = queriesIssued w)
       \<and> searchInput (keystrokes lower w ((t, v) # ks)) = Some (lastValue v ks)
       \<and> advance lower (keystrokes lower w ((t, v) # ks)) T
           = performVoucherSearch lower
               ((keystrokes lower w ((t, v) # ks))
                  \<lparr>clock := max (clock (keystrokes lower w ((t, v) # ks))) T, timers := []\<rparr>)
       \<and> timers (advance lower (keystrokes lower w ((t, v) # ks)) T) = []
       \<and> (\<not> userMissing w \<longrightarrow>
            queriesIssued (advance lower (keystrokes lower w ((t, v) # ks)) T) = queriesIssued w + 1
          \<and> searchResults (advance lower (keystrokes lower w ((t, v) # ks)) T)
              = take 100 (matchingVouchers lower (lastValue v ks) (collectionSearched w)))
       \<and> (singleSlot e \<longrightarrow>
            handleEnter lower e = performVoucherSearch lower (e\<lparr>timers := []\<rparr>)
          \<and> timers (handleEnter lower e) = []
          \<and> queriesIssued (advance lower (handleEnter lower e) T) = queriesIssued (handleEnter lower e)
          \<and> (searchInput e = Some current \<and> trim current \<noteq> [] \<and> \<not> userMissing e \<longrightarrow>
               queriesIssued (handleEnter lower e) = queriesIssued e + 1
             \<and> searchResults (handleEnter lower e) = take 100 (matchingVouchers lower current (collectionSearched e))))
       \<and> (singleSlot c \<and> trim blank = [] \<longrightarrow>
            timers (keystroke c blank) = []
          \<and> \<not> isSearchMode (keystroke c blank)
          \<and> searchResults (keystroke c blank) = []
          \<and> dailyRenders (keystroke c blank) = dailyRenders c + 1
          \<and> queriesIssued (keystroke c blank) = queriesIssued c
          \<and> queriesIssued (advance lower (keystroke c blank) T) = queriesIssued c)"
proof -
  let ?w1 = "keystrokes lower w ((t, v) # ks)"
  from burst_from_idle[OF idle ids now burst, where v=v and lower=lower]
  have a: "armedAt ?w1 (lastTime t ks) (lastValue v ks)" and s: "sameSession w ?w1"
    by simp_all
  have 1: "queriesIssued ?w1 = queriesIssued w" using s by (simp del: keystrokes.simps add: sameSession_def)
  have 2: "T' < lastTime t ks + 300 \<longrightarrow> queriesIssued (advance lower ?w1 T') = queriesIssued w"
    using no_fire_before_due[OF a] 1 by (simp del: keystrokes.simps)
  from fire_invokes_once[OF a nonblank due]
  have 3: "searchInput ?w1 = Some (lastValue v ks)"
    and 4: "advance lower ?w1 T = performVoucherSearch lower (?w1\<lparr>clock := max (clock ?w1) T, timers := []\<rparr>)"
    by (simp_all del: keystrokes.simps)
  have 5: "timers (advance lower ?w1 T) = []"
    unfolding 4 by (simp del: keystrokes.simps add: performVoucherSearch_frame(1))
  have 8: "\<not> userMissing w \<longrightarrow>
            queriesIssued (advance lower ?w1 T) = queriesIssued w + 1
          \<and> searchResults (advance lower ?w1 T) = take 100 (matchingVouchers lower (lastValue v ks) (collectionSearched w))"
  proof
    assume user: "\<not> userMissing w"
    have u1: "\<not> userMissing ?w1" using user sameSession_user[OF s] by (simp del: keystrokes.simps)
    from fire_after_burst[OF a nonblank u1 due]
    show "queriesIssued (advance lower ?w1 T) = queriesIssued w + 1
          \<and> searchResults (advance lower ?w1 T) = take 100 (matchingVouchers lower (lastValue v ks) (collectionSearched w))"
      by (simp del: keystrokes.simps add: 1 sameSession_collection[OF s])
  qed
  have 6: "singleSlot e \<longrightarrow>
            handleEnter lower e = performVoucherSearch lower (e\<lparr>timers := []\<rparr>)
          \<and> timers (handleEnter lower e) = []
          \<and> queriesIssued (advance lower (handleEnter lower e) T) = queriesIssued (handleEnter lower e)
          \<and> (searchInput e = Some current \<and> trim current \<noteq> [] \<and> \<not> userMissing e \<longrightarrow>
               queriesIssued (handleEnter lower e) = queriesIssued e + 1
             \<and> searchResults (handleEnter lower e) = take 100 (matchingVouchers lower current (collectionSearched e)))"
  proof
    assume se: "singleSlot e"
    let ?e = "e\<lparr>timers := []\<rparr>"
    have h: "handleEnter lower e = performVoucherSearch lower ?e" by (rule handleEnter_singleSlot[OF se])
    have t0: "timers (handleEnter lower e) = []"
      by (simp add: h performVoucherSearch_frame(1))
    have q0: "queriesIssued (advance lower (handleEnter lower e) T) = queriesIssued (handleEnter lower e)"
      by (rule advance_no_timers[OF t0])
    have r: "queriesIssued (handleEnter lower e) = queriesIssued e + 1
             \<and> searchResults (handleEnter lower e) = take 100 (matchingVouchers lower current (collectionSearched e))"
      if c: "searchInput e = Some current" "trim current \<noteq> []" "\<not> userMissing e"
    proof -
      have i': "searchInput ?e = Some current" using c(1) by simp
      have g: "searchGuard ?e" by (rule searchGuardI[OF i' c(2)]) (simp add: c(3))
      show ?thesis
        unfolding h
        using performVoucherSearch_queries[where w="?e" and lower=lower] performVoucherSearch_outcome(1)[OF g]
          scanResults_eq[OF i'] g
        by simp
    qed
    from h t0 q0 r show "handleEnter lower e = performVoucherSearch lower (e\<lparr>timers := []\<rparr>)
          \<and> timers (handleEnter lower e) = []
          \<and> queriesIssued (advance lower (handleEnter lower e) T) = queriesIssued (handleEnter lower e)
          \<and> (searchInput e = Some current \<and> trim current \<noteq> [] \<and> \<not> userMissing e \<longrightarrow>
               queriesIssued (handleEnter lower e) = queriesIssued e + 1
             \<and> searchResults (handleEnter lower e) = take 100 (matchingVouchers lower current (collectionSearched e)))"
      by blast
  qed
  have 7: "singleSlot c \<and> trim blank = [] \<longrightarrow>
            timers (keystroke c blank) = []
          \<and> \<not> isSearchMode (keystroke c blank)
          \<and> searchResults (keystroke c blank) = []
          \<and> dailyRenders (keystroke c blank) = dailyRenders c + 1
          \<and> queriesIssued (keystroke c blank) = queriesIssued c
          \<and> queriesIssued (advance lower (keystroke c blank) T) = queriesIssued c"
  proof
    assume h: "singleSlot c \<and> trim blank = []"
    then have k: "keystroke c blank
         = renderDailyVouchers (c\<lparr>searchInput := Some blank, timers := [], isSearchMode := False, searchResults := []\<rparr>)"
      by (simp add: keystroke_blank)
    have t0: "timers (keystroke c blank) = []"
      by (simp add: k renderDailyVouchers_def)
    have q: "queriesIssued (keystroke c blank) = queriesIssued c"
      by (simp add: k)
    show "timers (keystroke c blank) = []
          \<and> \<not> isSearchMode (keystroke c blank)
          \<and> searchResults (keystroke c blank) = []
          \<and> dailyRenders (keystroke c blank) = dailyRenders c + 1
          \<and> queriesIssued (keystroke c blank) = queriesIssued c
          \<and> queriesIssued (advance lower (keystroke c blank) T) = queriesIssued c"
      using advance_no_timers[OF t0, where T=T and lower=lower] q
      by (simp add: k renderDailyVouchers_def)
  qed
  from 1 2 3 4 5 8 6 7 show ?thesis by blast
qed

text \<open>
  Three keystrokes at 1000, 1100 and 1250 ms leaving \<open>k\<close>, then \<open>k\<close> U+00C4, then
  \<open>k\<close> U+00C4 \<open>-7\<close>: no query by 1549 ms, one query at 1550 ms, for the last value.
  \<open>Enter\<close> while the timeout for \<open>k\<close> U+00C4 is pending queries that value at once;
  a keystroke that leaves a no-break space and a space instead runs no query.
\<close>

theorem debounce_single_query_witness:
  "timers typing_session = [] \<and> nextTimerId typing_session = 1 \<and> clock typing_session \<le> 1000
   \<and> withinDelay 1000 [(1100, [107, 196]), (1250, [107, 196, 45, 55])]
   \<and> trim [107, 196, 45, 55] = [107, 196, 45, 55] \<and> \<not> userMissing typing_session
   \<and> queriesIssued (keystrokes latin1Lower typing_session
        [(1000, [107]), (1100, [107, 196]), (1250, [107, 196, 45, 55])]) = 0
   \<and> queriesIssued (advance latin1Lower (keystrokes latin1Lower typing_session
        [(1000, [107]), (1100, [107, 196]), (1250, [107, 196, 45, 55])]) 1549) = 0
   \<and> queriesIssued (advance latin1Lower (keystrokes latin1Lower typing_session
        [(1000, [107]), (1100, [107, 196]), (1250, [107, 196, 45, 55])]) 1550) = 1
   \<and> searchResults (advance latin1Lower (keystrokes latin1Lower typing_session
        [(1000, [107]), (1100, [107, 196]), (1250, [107, 196, 45, 55])]) 1550)
       = [numbered 1, numbered 2]
   \<and> singleSlot half_typed \<and> timers half_typed = [(1, 300)]
   \<and> timers (handleEnter latin1Lower half_typed) = []
   \<and> queriesIssued (handleEnter latin1Lower half_typed) = 1
   \<and> searchResults (handleEnter latin1Lower half_typed) = [numbered 0, numbered 1, numbered 2]
   \<and> trim [160, 32] = []
   \<and> timers (keystroke half_typed [160, 32]) = []
   \<and> \<not> isSearchMode (keystroke half_typed [160, 32])
   \<and> queriesIssued (advance latin1Lower (keystroke half_typed [160, 32]) 1550) = 0"
proof -
  let ?v3 = "[107, 196, 45, 55] :: jsstring"
  let ?v2 = "[107, 196] :: jsstring"
  let ?b = "[160, 32] :: jsstring"
  let ?ks = "[(1100, ?v2), (1250, ?v3)]"
  let ?K = "keystrokes latin1Lower typing_session ((1000, [107]) # ?ks)"
  have f: "timers typing_session = []" "nextTimerId typing_session = 1" "clock typing_session = 0"
    "queriesIssued typing_session = 0"
    by (simp_all add: typing_session_def new_VoucherManager_def initialize_def queriesIssued_def)
  have u: "\<not> userMissing typing_session"
    by (simp add: typing_session_def new_VoucherManager_def initialize_def userMissing_def ascii_def)
  have t7: "trim ?v3 = ?v3" and tk: "trim ?v2 = ?v2" and tb: "trim ?b = []"
    by (simp_all add: trim_def isWhiteSpace_def)
  have l3: "latin1Lower ?v3 = [107, 228, 45, 55]" and l2: "latin1Lower ?v2 = [107, 228]"
    by (simp_all add: latin1Lower_def)
  have s0: "singleSlot typing_session" by (simp add: singleSlot_iff f)
  have h: "half_typed = typing_session\<lparr>searchInput := Some ?v2, timers := [(1, 300)],
              nextTimerId := 2, searchDebounceTimer := Some 1\<rparr>"
    unfolding half_typed_def using keystroke_arms[OF s0, of ?v2] by (simp add: tk f)
  have hs: "singleSlot half_typed" "timers half_typed = [(1, 300)]" "searchInput half_typed = Some ?v2"
    "\<not> userMissing half_typed" "queriesIssued half_typed = 0"
    using u by (simp_all add: h singleSlot_iff f userMissing_def queriesIssued_def
        typing_session_def new_VoucherManager_def initialize_def)
  have m7: "take 100 (matchingVouchers latin1Lower (lastValue [107] ?ks) (collectionSearched typing_session))
              = [numbered 1, numbered 2]"
    by (simp add: matchingVouchers_def t7 l3 latin1Lower_numbered_012 sublist_Cons_right
        collectionSearched_def typing_session_def new_VoucherManager_def initialize_def)
  have mk: "take 100 (matchingVouchers latin1Lower ?v2 (collectionSearched half_typed))
              = [numbered 0, numbered 1, numbered 2]"
    by (simp add: matchingVouchers_def tk l2 latin1Lower_numbered_012 sublist_Cons_right
        collectionSearched_def h typing_session_def new_VoucherManager_def initialize_def)
  have p2: "nextTimerId typing_session \<noteq> 0" by (simp add: f)
  have p3: "clock typing_session \<le> 1000" by (simp add: f)
  have p4: "withinDelay 1000 ?ks" by simp
  have p5: "trim (lastValue [107] ?ks) \<noteq> []" by (simp add: t7)
  have p7: "lastTime 1000 ?ks + 300 \<le> 1550" by simp
  note T = debounce_single_query[where lower = latin1Lower and T' = 1549 and e = half_typed
      and current = ?v2 and c = half_typed and blank = ?b, OF f(1) p2 p3 p4 p5 p7]
  from T u have b: "queriesIssued ?K = queriesIssued typing_session"
    "1549 < lastTime 1000 ?ks + 300 \<longrightarrow> queriesIssued (advance latin1Lower ?K 1549) = queriesIssued typing_session"
    "queriesIssued (advance latin1Lower ?K 1550) = queriesIssued typing_session + 1"
    "searchResults (advance latin1Lower ?K 1550)
       = take 100 (matchingVouchers latin1Lower (lastValue [107] ?ks) (collectionSearched typing_session))"
    by blast+
  have e0: "searchInput half_typed = Some ?v2 \<and> trim ?v2 \<noteq> [] \<and> \<not> userMissing half_typed"
    using hs by (simp add: tk)
  from T hs(1) e0 have e: "timers (handleEnter latin1Lower half_typed) = []"
    "queriesIssued (handleEnter latin1Lower half_typed) = queriesIssued half_typed + 1"
    "searchResults (handleEnter latin1Lower half_typed)
       = take 100 (matchingVouchers latin1Lower ?v2 (collectionSearched half_typed))"
    by blast+
  from T hs(1) tb have c: "timers (keystroke half_typed ?b) = []"
    "\<not> isSearchMode (keystroke half_typed ?b)"
    "queriesIssued (advance latin1Lower (keystroke half_typed ?b) 1550) = queriesIssued half_typed"
    by blast+
  have b4: "searchResults (advance latin1Lower ?K 1550) = [numbered 1, numbered 2]"
    using b(4) unfolding m7 .
  have e3: "searchResults (handleEnter latin1Lower half_typed) = [numbered 0, numbered 1, numbered 2]"
    using e(3) unfolding mk .
  have b2: "queriesIssued (advance latin1Lower ?K 1549) = 0" using b(2) by (simp add: f)
  show ?thesis
    using f u p4 hs b(1,3) b2 b4 e(1,2) e3 c
    by (simp del: keystrokes.simps add: t7 tb)
qed

end
